theory Spec2Isabelle
  imports Complex_Main
begin

section \<open>JavaScript values used by the pool manager\<close>

text \<open>
  The controller (\<^verbatim>\<open>src/server/vm/base.ts\<close>) computes with JavaScript numbers.
  A number is modelled as an exact real or \<open>NaN\<close>; the infinities do not arise in
  the operations embedded here (subtraction, addition, remainder by a non-zero constant,
  comparison).  Arithmetic with \<open>NaN\<close> yields \<open>NaN\<close> and every comparison with
  \<open>NaN\<close> is false, as in the language.
\<close>

datatype jsnum = NaN | Num real

fun js_sub :: "jsnum \<Rightarrow> jsnum \<Rightarrow> jsnum" where
  "js_sub (Num x) (Num y) = Num (x - y)"
| "js_sub _ _ = NaN"

fun js_add :: "jsnum \<Rightarrow> jsnum \<Rightarrow> jsnum" where
  "js_add (Num x) (Num y) = Num (x + y)"
| "js_add _ _ = NaN"

text \<open>Truncation towards zero, the rounding of the \<^verbatim>\<open>%\<close> operator's quotient.\<close>

definition trunc :: "real \<Rightarrow> int" where
  "trunc q = (if q < 0 then \<lceil>q\<rceil> else \<lfloor>q\<rfloor>)"

text \<open>\<^verbatim>\<open>n % m\<close>: the remainder takes the sign of the dividend; a zero divisor gives \<open>NaN\<close>.\<close>

fun js_rem :: "jsnum \<Rightarrow> jsnum \<Rightarrow> jsnum" where
  "js_rem (Num n) (Num m) = (if m = 0 then NaN else Num (n - m * of_int (trunc (n / m))))"
| "js_rem _ _ = NaN"

fun js_le :: "jsnum \<Rightarrow> jsnum \<Rightarrow> bool" where
  "js_le (Num x) (Num y) = (x \<le> y)"
| "js_le _ _ = False"

fun js_less :: "jsnum \<Rightarrow> jsnum \<Rightarrow> bool" where
  "js_less (Num x) (Num y) = (x < y)"
| "js_less _ _ = False"

text \<open>Reading an array of numbers past its end gives \<^verbatim>\<open>undefined\<close>, which every
  arithmetic operator converts to \<open>NaN\<close>.\<close>

definition js_index :: "jsnum list \<Rightarrow> nat \<Rightarrow> jsnum" where
  "js_index xs i = (if i < length xs then xs ! i else NaN)"

text \<open>\<^verbatim>\<open>s.split(c)\<close> for a one-character separator: the pieces between the separators,
  never an empty array.\<close>

fun split_on :: "char \<Rightarrow> string \<Rightarrow> string list" where
  "split_on c [] = [[]]"
| "split_on c (x # xs) =
     (if x = c then [] # split_on c xs
      else (case split_on c xs of
              [] \<Rightarrow> [[x]]
            | p # ps \<Rightarrow> (x # p) # ps))"

section \<open>The buffer calculator\<close>

text \<open>\<^verbatim>\<open>nonNegativeMod(n, m) = ((n % m) + m) % m\<close>\<close>

definition nonNegativeMod :: "jsnum \<Rightarrow> jsnum \<Rightarrow> jsnum" where
  "nonNegativeMod n m = js_rem (js_add (js_rem n m) m) m"

text \<open>\<^verbatim>\<open>pointInInterval24(x, a, b)\<close>\<close>

definition pointInInterval24 :: "jsnum \<Rightarrow> jsnum \<Rightarrow> jsnum \<Rightarrow> bool" where
  "pointInInterval24 x a b =
     js_le (nonNegativeMod (js_sub x a) (Num 24)) (nonNegativeMod (js_sub b a) (Num 24))"

text \<open>
  The configuration module is not part of the sources; the keys the controller reads
  are fields of a record.  The ramp windows are strings of the form \<^verbatim>\<open>"a,b"\<close>.
\<close>

record config =
  VM_POOL_RAMP_DOWN_HOURS :: string
  VM_POOL_RAMP_UP_HOURS :: string
  VM_MIN_UPTIME_MINUTES :: int
  NODE_ENV :: string

text \<open>The fields of a \<^verbatim>\<open>VMManager\<close> and the constants its provider subclass fixes.\<close>

record manager =
  mgr_id :: string
  isLarge :: bool
  region :: string
  limitSize :: real
  minSize :: nat
  minRetries :: int

definition getPoolName :: "manager \<Rightarrow> string" where
  "getPoolName m = mgr_id m @ (if isLarge m then ''Large'' else '''') @ region m"

definition getMinBuffer :: "manager \<Rightarrow> real" where
  "getMinBuffer m = limitSize m * (5 / 100)"

text \<open>
  \<^verbatim>\<open>getAdjustedBuffer\<close>.  The built-in conversion \<^verbatim>\<open>Number\<close> of a string is a
  parameter \<open>toNumber\<close>; \<open>nowHour\<close> is \<^verbatim>\<open>new Date().getUTCHours()\<close>.  The result is the
  pair \<^verbatim>\<open>[Math.ceil(minBuffer), Math.ceil(minBuffer * 1.5)]\<close>.
\<close>

definition getAdjustedBuffer :: "(string \<Rightarrow> jsnum) \<Rightarrow> config \<Rightarrow> manager \<Rightarrow> int \<Rightarrow> int \<times> int" where
  "getAdjustedBuffer toNumber cfg m nowHour =
     (let minBuffer = getMinBuffer m;
          rampDownHours = map toNumber (split_on CHR '','' (VM_POOL_RAMP_DOWN_HOURS cfg));
          rampUpHours = map toNumber (split_on CHR '','' (VM_POOL_RAMP_UP_HOURS cfg));
          isRampDown = (length rampDownHours \<noteq> 0 \<and>
             pointInInterval24 (Num (of_int nowHour)) (js_index rampDownHours 0) (js_index rampDownHours 1));
          isRampUp = (length rampUpHours \<noteq> 0 \<and>
             pointInInterval24 (Num (of_int nowHour)) (js_index rampUpHours 0) (js_index rampUpHours 1));
          adjusted = (if isRampDown then minBuffer / 2
                      else if isRampUp then minBuffer * (3 / 2)
                      else minBuffer)
      in (\<lceil>adjusted\<rceil>, \<lceil>adjusted * (3 / 2)\<rceil>))"


section \<open>The state store and the outside world\<close>

text \<open>The \<^verbatim>\<open>state\<close> column of a VM record.\<close>

datatype lifecycle = Staging | Available | Used

text \<open>The interface \<^verbatim>\<open>VM\<close>: the provider's projection, cached in the \<^verbatim>\<open>data\<close> column.\<close>

record VM =
  vm_id :: string
  pass :: string
  host :: string
  private_ip :: string
  vm_state :: string
  tags :: "string list"
  creation_date :: string
  provider :: string
  originalName :: "string option"
  large :: bool
  vm_region :: string

text \<open>\<^verbatim>\<open>AssignedVM extends VM\<close>; the optional fields are not set by the controller.\<close>

record AssignedVM = VM +
  vm_assignTime :: int

text \<open>
  One row of the table \<^verbatim>\<open>vbrowser\<close>.  \<open>rid\<close> is the column \<^verbatim>\<open>id\<close>; timestamps are
  milliseconds since the epoch, the resolution of the \<^verbatim>\<open>Date\<close> values the controller
  stores; a nullable column is an \<open>option\<close>.
\<close>

record row =
  rid :: int
  pool :: string
  vmid :: string
  state :: lifecycle
  creationTime :: int
  readyTime :: "int option"
  assignTime :: "int option"
  heartbeatTime :: "int option"
  resetTime :: "int option"
  retries :: int
  roomId :: "string option"
  uid :: "string option"
  data :: "VM option"

text \<open>The metrics sink: lists (newest first) and counters, by key.\<close>

datatype metric = MNum int | MStr string

record redis_store =
  lists :: "string \<Rightarrow> metric list"
  counters :: "string \<Rightarrow> nat"

text \<open>Calls made to the provider adapter, in order.\<close>

datatype provider_call =
    StartVM string | RebootVM string | TerminateVM string | GetVM string | PowerOn string

text \<open>Statements sent to the state store, in order, on either connection.\<close>

datatype statement =
    BeginTransaction | CommitTransaction | RollbackTransaction | EndConnection
  | SelectQueue string | UpdateLease
  | CountAvailable | InsertStaging | SelectUid | UpdateReset | DeleteByVmid
  | DeleteOldestEligible | IncrementRetries | DeleteById | UpdateData | UpdateAvailable

text \<open>What the controller does to the outside, in order: a statement sent to the state
  store or a call of the provider adapter.\<close>

datatype event = Db statement | Api provider_call

text \<open>
  Everything the controller changes: the committed table, the sequence behind the
  \<^verbatim>\<open>id\<close> column, the optional metrics client (\<^verbatim>\<open>redis?.\<close> in the source), and the
  log of events.  The model is of one controller task at a time: nothing else writes
  the table while an operation runs, and no other session holds a row lock, so that
  \<^verbatim>\<open>FOR UPDATE SKIP LOCKED\<close> passes over no row.
\<close>

record world =
  vbrowser :: "row list"
  next_id :: int
  redis :: "redis_store option"
  events :: "event list"

datatype getvm_result = GetVMOk "VM option" | GetVM404 | GetVMError

text \<open>A response of the health endpoint carries \<^verbatim>\<open>Number(resp.data)\<close>; every failure of
  the request (network, timeout, status) is \<open>HttpError\<close>.\<close>

datatype http_response = HttpOk jsnum | HttpError

text \<open>
  What the outside answers: the abstract methods of \<^verbatim>\<open>VMManager\<close> (a provider call
  that throws is \<open>None\<close> or \<open>False\<close>), the HTTP client, the random password, the
  process environment and the clock.
\<close>

record env =
  uuid :: string
  startVM :: "string \<Rightarrow> string option"
  rebootVM :: "string \<Rightarrow> bool"
  terminateVM :: "string \<Rightarrow> bool"
  getVM :: "string \<Rightarrow> getvm_result"
  http_get :: "string \<Rightarrow> http_response"
  toNumber :: "string \<Rightarrow> jsnum"
  process_NODE_ENV :: string
  now :: int

definition say :: "statement list \<Rightarrow> world \<Rightarrow> world" where
  "say ss w = w\<lparr>events := events w @ map Db ss\<rparr>"

definition call :: "provider_call \<Rightarrow> world \<Rightarrow> world" where
  "call c w = w\<lparr>events := events w @ [Api c]\<rparr>"

definition redis_lpush :: "string \<Rightarrow> metric \<Rightarrow> world \<Rightarrow> world" where
  "redis_lpush k v w =
     w\<lparr>redis := map_option (\<lambda>s. s\<lparr>lists := (lists s)(k := v # lists s k)\<rparr>) (redis w)\<rparr>"

definition redis_ltrim :: "string \<Rightarrow> nat \<Rightarrow> nat \<Rightarrow> world \<Rightarrow> world" where
  "redis_ltrim k start stop w =
     w\<lparr>redis := map_option
        (\<lambda>s. s\<lparr>lists := (lists s)(k := take (stop + 1 - start) (drop start (lists s k)))\<rparr>) (redis w)\<rparr>"

text \<open>Modelled from the spec: \<^verbatim>\<open>redisCount\<close> of \<^verbatim>\<open>utils/redis\<close> is not among the
  sources; the spec lists \<^verbatim>\<open>vBrowserLaunches\<close> and \<^verbatim>\<open>vBrowserStagingFails\<close> as counters
  of the metrics sink, so a call adds one to the counter of that key.\<close>

definition redisCount :: "string \<Rightarrow> world \<Rightarrow> world" where
  "redisCount k w =
     w\<lparr>redis := map_option (\<lambda>s. s\<lparr>counters := (counters s)(k := counters s k + 1)\<rparr>) (redis w)\<rparr>"

definition in_pool :: "string \<Rightarrow> lifecycle \<Rightarrow> row \<Rightarrow> bool" where
  "in_pool p st r = (pool r = p \<and> state r = st)"

text \<open>\<^verbatim>\<open>SELECT count(1) FROM vbrowser WHERE pool = $1 and state = 'available'\<close>\<close>

definition getAvailableCount :: "manager \<Rightarrow> row list \<Rightarrow> nat" where
  "getAvailableCount m tbl = length (filter (in_pool (getPoolName m) Available) tbl)"

section \<open>Launch and terminate\<close>

definition fresh_row :: "int \<Rightarrow> string \<Rightarrow> string \<Rightarrow> int \<Rightarrow> row" where
  "fresh_row i p v t =
     \<lparr>rid = i, pool = p, vmid = v, state = Staging, creationTime = t, readyTime = None,
      assignTime = None, heartbeatTime = None, resetTime = None, retries = 0,
      roomId = None, uid = None, data = None\<rparr>"

text \<open>\<^verbatim>\<open>startVMWrapper\<close>: a provider failure is caught and logged, and nothing is
  inserted.\<close>

definition startVMWrapper :: "env \<Rightarrow> manager \<Rightarrow> world \<Rightarrow> string option \<times> world" where
  "startVMWrapper e m w =
     (let password = uuid e;
          w1 = call (StartVM password) w
      in case startVM e password of
           None \<Rightarrow> (None, w1)
         | Some v \<Rightarrow>
             (Some v,
              redisCount ''vBrowserLaunches''
                (say [InsertStaging]
                  (w1\<lparr>vbrowser := vbrowser w1 @ [fresh_row (next_id w1) (getPoolName m) v (now e)],
                      next_id := next_id w1 + 1\<rparr>))))"

text \<open>\<^verbatim>\<open>terminateVMWrapper\<close>: when the provider call throws, the \<^verbatim>\<open>DELETE\<close> is not
  reached.\<close>

definition terminateVMWrapper :: "env \<Rightarrow> manager \<Rightarrow> string \<Rightarrow> world \<Rightarrow> bool \<times> world" where
  "terminateVMWrapper e m v w =
     (let w1 = call (TerminateVM v) w
      in if \<not> terminateVM e v then (False, w1)
         else (True,
               say [DeleteByVmid]
                 (w1\<lparr>vbrowser := filter (\<lambda>r. \<not> (pool r = getPoolName m \<and> vmid r = v)) (vbrowser w1)\<rparr>)))"

section \<open>The assignment protocol\<close>

text \<open>\<^verbatim>\<open>ORDER BY id ASC ... LIMIT 1 OFFSET n\<close> over the rows a condition keeps.\<close>

definition first_by_id :: "nat \<Rightarrow> (row \<Rightarrow> bool) \<Rightarrow> row list \<Rightarrow> int option" where
  "first_by_id n cond tbl =
     (case drop n (sort_key rid (filter cond tbl)) of
        [] \<Rightarrow> None
      | r # _ \<Rightarrow> Some (rid r))"

definition lease :: "string \<Rightarrow> string \<Rightarrow> int \<Rightarrow> row \<Rightarrow> row" where
  "lease room u t r =
     r\<lparr>roomId := Some room, uid := Some u, heartbeatTime := Some t, assignTime := Some t,
       state := Used\<rparr>"

text \<open>
  \<^verbatim>\<open>getAssignedVM\<close>, the lease statement, on the table as the transaction sees it:
  the rows whose \<^verbatim>\<open>id\<close> the subquery selected are updated, and \<^verbatim>\<open>rows[0]?.data\<close> of
  the \<^verbatim>\<open>RETURNING\<close> clause comes back (\<open>None\<close> for no row, and for a null column).
\<close>

definition getAssignedVM :: "string \<Rightarrow> string \<Rightarrow> string \<Rightarrow> int \<Rightarrow> row list \<Rightarrow> VM option \<times> row list" where
  "getAssignedVM p room u t tbl =
     (case first_by_id 0 (in_pool p Available) tbl of
        None \<Rightarrow> (None, tbl)
      | Some i \<Rightarrow>
          (case filter (\<lambda>r. rid r = i) tbl of
             [] \<Rightarrow> (None, tbl)
           | r # _ \<Rightarrow> (data r, map (\<lambda>x. if rid x = i then lease room u t x else x) tbl)))"

text \<open>
  One pass of the retry loop is driven by what the queue query finds at that moment
  and the clock then; \<open>DbFailure\<close> is a statement of the pass that throws (the
  statements before and after the loop are taken to succeed).  The list of ticks is the
  loop's fuel: when it ends the loop is still waiting.
\<close>

datatype tick = Tick bool int | DbFailure

datatype loop_result =
    StillWaiting "row list" world
  | RoomLeft world
  | Threw world
  | Selected VM int "row list" world

fun lease_loop :: "string \<Rightarrow> string \<Rightarrow> string \<Rightarrow> tick list \<Rightarrow> row list \<Rightarrow> world \<Rightarrow> loop_result" where
  "lease_loop p room u [] view w = StillWaiting view w"
| "lease_loop p room u (DbFailure # ts) view w = Threw (say [SelectQueue room] w)"
| "lease_loop p room u (Tick inQueue t # ts) view w =
     (if \<not> inQueue then RoomLeft (say [SelectQueue room] w)
      else (case getAssignedVM p room u t view of
              (None, view') \<Rightarrow> lease_loop p room u ts view' (say [SelectQueue room, UpdateLease] w)
            | (Some vm, view') \<Rightarrow> Selected vm t view' (say [SelectQueue room, UpdateLease] w)))"

text \<open>Lines 131 to 137: the warm-on-demand launch, written through the shared
  connection and so committed at once, whatever the transaction does later.\<close>

definition spawnIfNoneAvailable :: "env \<Rightarrow> manager \<Rightarrow> world \<Rightarrow> world" where
  "spawnIfNoneAvailable e m w =
     (if minSize m = 0 then
        (let w1 = say [CountAvailable] w
         in if getAvailableCount m (vbrowser w1) = 0 then snd (startVMWrapper e m w1) else w1)
      else w)"

definition assigned :: "VM \<Rightarrow> int \<Rightarrow> AssignedVM" where
  "assigned v t =
     \<lparr>vm_id = vm_id v, pass = pass v, host = host v, private_ip = private_ip v,
      vm_state = vm_state v, tags = tags v, creation_date = creation_date v,
      provider = provider v, originalName = originalName v, large = large v,
      vm_region = vm_region v, vm_assignTime = t\<rparr>"

text \<open>\<open>Returned None\<close> is \<^verbatim>\<open>undefined\<close>; \<open>Waiting\<close> is a call whose loop has not exited
  after the given ticks, with the world as committed so far.\<close>

datatype assign_outcome = Returned "AssignedVM option" world | Waiting world

definition assignVM :: "env \<Rightarrow> manager \<Rightarrow> string \<Rightarrow> string \<Rightarrow> tick list \<Rightarrow> world \<Rightarrow> assign_outcome" where
  "assignVM e m room u ticks w =
     (if room = [] \<or> u = [] then Returned None w
      else
        (let assignStart = now e;
             w1 = spawnIfNoneAvailable e m (say [BeginTransaction] w)
         in case lease_loop (getPoolName m) room u ticks (vbrowser w1) w1 of
              StillWaiting view w2 \<Rightarrow> Waiting w2
            | RoomLeft w2 \<Rightarrow> Returned None (say [RollbackTransaction, EndConnection] w2)
            | Threw w2 \<Rightarrow> Returned None (say [RollbackTransaction, EndConnection] w2)
            | Selected vm t view w2 \<Rightarrow>
                (let w3 = redis_ltrim ''vBrowserStartMS'' 0 24
                            (redis_lpush ''vBrowserStartMS'' (MNum (t - assignStart)) w2)
                 in Returned (Some (assigned vm t))
                      (say [CommitTransaction, EndConnection] (w3\<lparr>vbrowser := view\<rparr>)))))"


section \<open>Reset\<close>

definition reset_row :: "int \<Rightarrow> row \<Rightarrow> row" where
  "reset_row t r =
     r\<lparr>roomId := None, uid := None, retries := 0, heartbeatTime := None, resetTime := Some t,
       readyTime := None, assignTime := None, data := None, state := Staging\<rparr>"

definition is_vm :: "string \<Rightarrow> string \<Rightarrow> row \<Rightarrow> bool" where
  "is_vm p v r = (pool r = p \<and> vmid r = v)"

text \<open>\<^verbatim>\<open>vmUid.rows[0]?.uid && vmUid.rows[0]?.uid !== uid\<close>: the first record of the VM
  has a lessee (not null, not the empty string) other than the caller.\<close>

definition uid_mismatch :: "string \<Rightarrow> string \<Rightarrow> string \<Rightarrow> row list \<Rightarrow> bool" where
  "uid_mismatch p v u tbl =
     (case filter (is_vm p v) tbl of
        [] \<Rightarrow> False
      | r # _ \<Rightarrow> (case uid r of None \<Rightarrow> False | Some lessee \<Rightarrow> lessee \<noteq> [] \<and> lessee \<noteq> u))"

datatype reset_outcome = ResetDone | UidMismatch | RebootThrew

text \<open>\<^verbatim>\<open>resetVM(vmid, uid?)\<close>.  The terminate of the last branch is not awaited; its
  effect is taken at once.\<close>

definition resetVM :: "env \<Rightarrow> manager \<Rightarrow> string \<Rightarrow> string option \<Rightarrow> world \<Rightarrow> reset_outcome \<times> world" where
  "resetVM e m v caller w =
     (let p = getPoolName m;
          w0 = (case caller of None \<Rightarrow> w | Some u \<Rightarrow> say [SelectUid] w);
          mismatch = (case caller of None \<Rightarrow> False | Some u \<Rightarrow> uid_mismatch p v u (vbrowser w))
      in if mismatch then (UidMismatch, w0)
         else
           (let w1 = call (RebootVM v) w0
            in if \<not> rebootVM e v then (RebootThrew, w1)
               else
                 (let rowCount = length (filter (is_vm p v) (vbrowser w1));
                      w2 = say [UpdateReset]
                             (w1\<lparr>vbrowser :=
                                   map (\<lambda>r. if is_vm p v r then reset_row (now e) r else r) (vbrowser w1)\<rparr>)
                  in if rowCount = 0 then (ResetDone, snd (terminateVMWrapper e m v w2))
                     else (ResetDone, w2))))"

section \<open>The readiness probe\<close>

text \<open>\<^verbatim>\<open>host.replace('/', '/health')\<close>: a string pattern replaces its first occurrence
  only.\<close>

fun replace_first :: "char \<Rightarrow> string \<Rightarrow> string \<Rightarrow> string" where
  "replace_first c new [] = []"
| "replace_first c new (x # xs) = (if x = c then new @ xs else x # replace_first c new xs)"

text \<open>\<^verbatim>\<open>checkVMReady(host)\<close>; \<^verbatim>\<open>Date.now() / 1000\<close> is the clock in seconds.\<close>

definition checkVMReady :: "env \<Rightarrow> string \<Rightarrow> bool" where
  "checkVMReady e h =
     (let url = ''https://'' @ replace_first CHR ''/'' ''/health'' h
      in case http_get e url of
           HttpError \<Rightarrow> False
         | HttpOk body \<Rightarrow>
             (let timeSinceBoot = js_sub (Num (of_int (now e) / 1000)) body
              in if process_NODE_ENV e = ''production''
                 then js_less timeSinceBoot (Num (60 * 1000))
                 else True))"

section \<open>The staging check\<close>

datatype reject_reason = RowNotFound | VmNotFound | NoHost

text \<open>How the promise of one row ends: resolved with \<^verbatim>\<open>vmid, retryCount, ready\<close>,
  rejected, or never settled (an exception inside the asynchronous executor, which
  \<^verbatim>\<open>resetVM\<close> can throw).\<close>

datatype staging_outcome =
    Resolved string int bool
  | Rejected reject_reason
  | Unsettled

text \<open>\<^verbatim>\<open>vm?.host\<close> as a condition: a descriptor with a non-empty host.\<close>

definition has_host :: "VM option \<Rightarrow> bool" where
  "has_host vm = (case vm of None \<Rightarrow> False | Some v \<Rightarrow> host v \<noteq> [])"

text \<open>The not-ready branch, lines 461 to 489.\<close>

definition notReady :: "env \<Rightarrow> manager \<Rightarrow> string \<Rightarrow> int \<Rightarrow> world \<Rightarrow> staging_outcome \<times> world" where
  "notReady e m v retryCount w =
     (if retryCount \<ge> 240 then
        (let w1 = redis_ltrim ''vBrowserStageFails'' 0 24
                    (redis_lpush ''vBrowserStageFails'' (MStr v)
                      (redisCount ''vBrowserStagingFails'' w))
         in case resetVM e m v None w1 of
              (RebootThrew, w2) \<Rightarrow> (Unsettled, w2)
            | (_, w2) \<Rightarrow> (Resolved v retryCount False, w2))
      else
        (Resolved v retryCount False,
         if retryCount mod 150 = 0 then call (PowerOn v) w else w))"

text \<open>Lines 447 to 491, once the descriptor is settled.\<close>

definition probeRow :: "env \<Rightarrow> manager \<Rightarrow> int \<Rightarrow> string \<Rightarrow> int \<Rightarrow> VM option \<Rightarrow> world \<Rightarrow> staging_outcome \<times> world" where
  "probeRow e m rowid v retryCount vm w =
     (case vm of
        None \<Rightarrow> (Rejected NoHost, w)
      | Some d \<Rightarrow>
          if host d = [] then (Rejected NoHost, w)
          else if checkVMReady e (host d) then
            (Resolved v retryCount True,
             redis_ltrim ''vBrowserStageRetries'' 0 24
               (redis_lpush ''vBrowserStageRetries'' (MNum retryCount)
                 (say [UpdateAvailable]
                   (w\<lparr>vbrowser :=
                        map (\<lambda>r. if rid r = rowid then r\<lparr>state := Available, readyTime := Some (now e)\<rparr> else r)
                          (vbrowser w)\<rparr>))))
          else notReady e m v retryCount w)"

text \<open>The body of the promise of one staging row, lines 394 to 491.\<close>

definition checkStagingRow :: "env \<Rightarrow> manager \<Rightarrow> int \<Rightarrow> world \<Rightarrow> staging_outcome \<times> world" where
  "checkStagingRow e m rowid w =
     (let w1 = say [IncrementRetries]
                 (w\<lparr>vbrowser :=
                      map (\<lambda>r. if rid r = rowid then r\<lparr>retries := retries r + 1\<rparr> else r) (vbrowser w)\<rparr>)
      in case filter (\<lambda>r. rid r = rowid) (vbrowser w1) of
           [] \<Rightarrow> (Rejected RowNotFound, w1)
         | first # _ \<Rightarrow>
             (let v = vmid first; retryCount = retries first; vm = data first
              in if retryCount < minRetries m then (Resolved v retryCount False, w1)
                 else
                   (let shouldFetchVM = (retryCount = minRetries m + 1 \<or> retryCount mod 20 = 0)
                    in if vm = None \<and> shouldFetchVM then
                         (let w2 = call (GetVM v) w1
                          in case getVM e v of
                               GetVM404 \<Rightarrow>
                                 (Rejected VmNotFound,
                                  say [DeleteById]
                                    (w2\<lparr>vbrowser := filter (\<lambda>r. rid r \<noteq> rowid) (vbrowser w2)\<rparr>))
                             | GetVMError \<Rightarrow> probeRow e m rowid v retryCount vm w2
                             | GetVMOk fetched \<Rightarrow>
                                 probeRow e m rowid v retryCount fetched
                                   (if has_host fetched
                                    then say [UpdateData]
                                           (w2\<lparr>vbrowser :=
                                                 map (\<lambda>r. if rid r = rowid then r\<lparr>data := fetched\<rparr> else r)
                                                   (vbrowser w2)\<rparr>)
                                    else w2))
                       else probeRow e m rowid v retryCount vm w1)))"

text \<open>One pass over the staging rows of the pool.  The source starts the promises
  together and waits for all of them or for 30 seconds; here they run one after the
  other, in the order of the query.\<close>

definition checkStaging :: "env \<Rightarrow> manager \<Rightarrow> world \<Rightarrow> world" where
  "checkStaging e m w =
     fold (\<lambda>i w'. snd (checkStagingRow e m i w'))
       (map rid (filter (in_pool (getPoolName m) Staging) (vbrowser w))) w"

section \<open>The shrink loop\<close>

text \<open>
  \<^verbatim>\<open>CAST(x AS INT)\<close> of a number of seconds rounds to the nearest integer, halves
  away from zero, and the result is a 32-bit integer: outside that range the cast
  raises \<^verbatim>\<open>integer out of range\<close>, here \<open>None\<close>.  \<^verbatim>\<open>%\<close> on integers truncates, so
  its sign is the dividend's.
\<close>

definition pg_round :: "real \<Rightarrow> int" where
  "pg_round q = (if q < 0 then - \<lfloor>- q + 1 / 2\<rfloor> else \<lfloor>q + 1 / 2\<rfloor>)"

definition pg_cast_int :: "real \<Rightarrow> int option" where
  "pg_cast_int q =
     (let k = pg_round q
      in if - 2147483648 \<le> k \<and> k \<le> 2147483647 then Some k else None)"

definition pg_mod :: "int \<Rightarrow> int \<Rightarrow> int" where
  "pg_mod a b = (if a < 0 then - ((- a) mod \<bar>b\<bar>) else a mod \<bar>b\<bar>)"

text \<open>\<^verbatim>\<open>CAST(extract(epoch from now() - "creationTime") as INT) % (60 * 60)\<close>, which
  raises when the cast does.\<close>

definition uptime_frac :: "int \<Rightarrow> row \<Rightarrow> int option" where
  "uptime_frac t r =
     map_option (\<lambda>k. pg_mod k (60 * 60)) (pg_cast_int (of_int (t - creationTime r) / 1000))"

text \<open>
  The \<^verbatim>\<open>WHERE\<close> clause of the subquery on one row: \<open>Some\<close> of its truth value, or
  \<open>None\<close> when it raises.  The comparisons of \<^verbatim>\<open>pool\<close> and \<^verbatim>\<open>state\<close> are tested first,
  so the uptime is computed for the available rows of the pool only.
\<close>

definition eligible :: "config \<Rightarrow> string \<Rightarrow> int \<Rightarrow> row \<Rightarrow> bool option" where
  "eligible cfg p t r =
     (if pool r = p \<and> state r = Available
      then map_option (\<lambda>f. f > VM_MIN_UPTIME_MINUTES cfg * 60) (uptime_frac t r)
      else Some False)"

text \<open>\<^verbatim>\<open>new Date().getUTCHours()\<close> of a clock reading in milliseconds.\<close>

definition getUTCHours :: "int \<Rightarrow> int" where
  "getUTCHours t = (t div 3600000) mod 24"

text \<open>How one tick of the shrink loop ends: its promise resolves, or it is rejected
  because the \<^verbatim>\<open>DELETE\<close> raised or because the provider's terminate threw.\<close>

datatype shrink_outcome = ShrinkDone | IntegerOutOfRange | TerminateThrew

text \<open>
  \<^verbatim>\<open>resizeVMGroupDecr\<close>, one tick of the shrink loop.  The \<^verbatim>\<open>DELETE\<close> raises, and
  deletes nothing, when its condition raises on a row; the condition is taken to be
  evaluated on every row of the table before the rows are ordered and skipped.  (A
  plan that reads the rows in id order can stop before a row on which the cast would
  raise; the properties of the shrink loop below are stated for tables on which it
  raises on no row, where the two agree.)
\<close>

definition resizeVMGroupDecr :: "env \<Rightarrow> config \<Rightarrow> manager \<Rightarrow> world \<Rightarrow> shrink_outcome \<times> world" where
  "resizeVMGroupDecr e cfg m w =
     (let w1 = say [CountAvailable] w;
          availableCount = getAvailableCount m (vbrowser w1);
          unlaunch = (int availableCount > snd (getAdjustedBuffer (toNumber e) cfg m (getUTCHours (now e))))
      in if \<not> unlaunch then (ShrinkDone, w1)
         else
           (let w2 = say [DeleteOldestEligible] w1
            in if list_ex (\<lambda>r. eligible cfg (getPoolName m) (now e) r = None) (vbrowser w2)
               then (IntegerOutOfRange, w2)
               else
                 (case first_by_id (minSize m)
                         (\<lambda>r. eligible cfg (getPoolName m) (now e) r = Some True) (vbrowser w2) of
                    None \<Rightarrow> (ShrinkDone, w2)
                  | Some i \<Rightarrow>
                      (case filter (\<lambda>r. rid r = i) (vbrowser w2) of
                         [] \<Rightarrow> (ShrinkDone, w2)
                       | first # _ \<Rightarrow>
                           (case terminateVMWrapper e m (vmid first)
                                   (w2\<lparr>vbrowser := filter (\<lambda>r. rid r \<noteq> i) (vbrowser w2)\<rparr>) of
                              (True, w3) \<Rightarrow> (ShrinkDone, w3)
                            | (False, w3) \<Rightarrow> (TerminateThrew, w3))))))"

text \<open>The uptime of a row in whole seconds modulo 3600: the value of the expression
  above when the cast is in range.\<close>

definition uptime_mod_hour :: "int \<Rightarrow> row \<Rightarrow> int" where
  "uptime_mod_hour t r = pg_mod (pg_round (of_int (t - creationTime r) / 1000)) (60 * 60)"

text \<open>
  The selection in the words of the specification, for comparison with the statement
  the shrink loop sends: order the available rows of the pool by id, skip the first
  \<open>minSize\<close> of them, and take the first row after those whose uptime within the hour
  exceeds the floor.
\<close>

definition shrink_choice_as_specified :: "config \<Rightarrow> manager \<Rightarrow> int \<Rightarrow> row list \<Rightarrow> int option" where
  "shrink_choice_as_specified cfg m t tbl =
     map_option rid
       (find (\<lambda>r. uptime_mod_hour t r > VM_MIN_UPTIME_MINUTES cfg * 60)
          (drop (minSize m) (sort_key rid (filter (in_pool (getPoolName m) Available) tbl))))"

section \<open>Relations of the specification, for comparison\<close>

text \<open>
  The formula the specification states for the high watermark:
  \<^verbatim>\<open>ceil(low * 1.5 / max(1, ceil(low)/low))\<close>.
\<close>

definition watermark_formula :: "real \<Rightarrow> int" where
  "watermark_formula low = \<lceil>low * (3 / 2) / max 1 (of_int \<lceil>low\<rceil> / low)\<rceil>"

text \<open>
  The relation the specification states between the two watermarks \<open>low\<close> and \<open>high\<close>
  that \<^verbatim>\<open>getAdjustedBuffer\<close> returns: \<open>high\<close> is the formula at \<open>low\<close>.  For \<open>low = 0\<close>
  the quotient \<^verbatim>\<open>ceil(low)/low\<close> is not a number and the equation is false.
\<close>

definition watermarks_as_specified :: "int \<Rightarrow> int \<Rightarrow> bool" where
  "watermarks_as_specified low high = (low \<noteq> 0 \<and> high = watermark_formula (of_int low))"

section \<open>Readings of results\<close>

definition outcome_world :: "assign_outcome \<Rightarrow> world" where
  "outcome_world out = (case out of Returned res w \<Rightarrow> w | Waiting w \<Rightarrow> w)"

text \<open>The provider calls among the events, in order.\<close>

definition api_calls :: "event list \<Rightarrow> provider_call list" where
  "api_calls es = concat (map (\<lambda>ev. case ev of Api c \<Rightarrow> [c] | Db s \<Rightarrow> []) es)"

definition loop_world :: "loop_result \<Rightarrow> world" where
  "loop_world res =
     (case res of StillWaiting view w \<Rightarrow> w | RoomLeft w \<Rightarrow> w | Threw w \<Rightarrow> w
      | Selected vm t view w \<Rightarrow> w)"

text \<open>A row of the pool that is available and whose uptime within the hour exceeds the
  configured floor.\<close>

definition old_enough :: "config \<Rightarrow> string \<Rightarrow> int \<Rightarrow> row \<Rightarrow> bool" where
  "old_enough cfg p t r =
     (pool r = p \<and> state r = Available \<and> uptime_mod_hour t r > VM_MIN_UPTIME_MINUTES cfg * 60)"

section \<open>Concrete inputs\<close>

text \<open>Small configurations and tables on which the theorems below are run.\<close>

definition demo_toNumber :: "string \<Rightarrow> jsnum" where
  "demo_toNumber s =
     (if s = [] then Num 0 else if s = ''22'' then Num 22 else if s = ''4'' then Num 4
      else if s = ''6'' then Num 6 else if s = ''10'' then Num 10 else NaN)"

definition demo_config :: config where
  "demo_config = \<lparr>VM_POOL_RAMP_DOWN_HOURS = ''22,4'', VM_POOL_RAMP_UP_HOURS = ''6,10'',
                   VM_MIN_UPTIME_MINUTES = 50, NODE_ENV = ''production''\<rparr>"

text \<open>A configuration with both ramp windows unset.\<close>

definition plain_config :: config where
  "plain_config = \<lparr>VM_POOL_RAMP_DOWN_HOURS = [], VM_POOL_RAMP_UP_HOURS = [],
                    VM_MIN_UPTIME_MINUTES = 50, NODE_ENV = ''production''\<rparr>"

definition demo_manager :: "real \<Rightarrow> nat \<Rightarrow> manager" where
  "demo_manager limit keep =
     \<lparr>mgr_id = ''Hetzner'', isLarge = False, region = ''US'', limitSize = limit,
      minSize = keep, minRetries = 30\<rparr>"

text \<open>An outside world in which every provider call succeeds; the HTTP client, the mode
  and the clock are given.\<close>

definition demo_env :: "(string \<Rightarrow> http_response) \<Rightarrow> string \<Rightarrow> int \<Rightarrow> env" where
  "demo_env http mode t =
     \<lparr>uuid = ''pw-1'', startVM = (\<lambda>name. Some ''vm-new''), rebootVM = (\<lambda>v. True),
      terminateVM = (\<lambda>v. True), getVM = (\<lambda>v. GetVMOk None), http_get = http,
      toNumber = demo_toNumber, process_NODE_ENV = mode, now = t\<rparr>"

definition demo_vm :: "string \<Rightarrow> VM" where
  "demo_vm v =
     \<lparr>vm_id = v, pass = ''pw'', host = ''gateway.example.com/?ip=10.0.0.5'',
      private_ip = ''10.0.0.5'', vm_state = ''running'', tags = [''vbrowserUS''],
      creation_date = ''2023-11-14'', provider = ''Hetzner'', originalName = None,
      large = False, vm_region = ''US''\<rparr>"

text \<open>A row with the given id, pool, VM id, state, creation time and cached descriptor;
  the other columns are null.\<close>

definition demo_row :: "int \<Rightarrow> string \<Rightarrow> string \<Rightarrow> lifecycle \<Rightarrow> int \<Rightarrow> VM option \<Rightarrow> row" where
  "demo_row i p v st created d = (fresh_row i p v created)\<lparr>state := st, data := d\<rparr>"

text \<open>Four rows: a staging row, two available rows of the pool \<open>HetznerUS\<close> with ids 3
  and 4, and an available row of another pool with the lower id 2.\<close>

definition lease_table :: "row list" where
  "lease_table =
     [demo_row 5 ''HetznerUS'' ''vm5'' Staging 0 None,
      demo_row 3 ''HetznerUS'' ''vm3'' Available 0 (Some (demo_vm ''vm3'')),
      demo_row 2 ''HetznerEU'' ''vm2'' Available 0 (Some (demo_vm ''vm2'')),
      demo_row 4 ''HetznerUS'' ''vm4'' Available 0 (Some (demo_vm ''vm4''))]"

text \<open>A world with the given table, a metrics client with nothing recorded, and an empty
  log.\<close>

definition demo_world :: "row list \<Rightarrow> world" where
  "demo_world tbl =
     \<lparr>vbrowser = tbl, next_id = 100,
      redis = Some \<lparr>lists = (\<lambda>k. []), counters = (\<lambda>k. 0)\<rparr>, events = []\<rparr>"

definition offline :: "string \<Rightarrow> http_response" where
  "offline url = HttpError"

text \<open>A table whose only available row has no cached descriptor: a lease of it selects
  nothing usable.\<close>

definition bare_table :: "row list" where
  "bare_table = [demo_row 7 ''HetznerUS'' ''vm7'' Available 0 None]"

text \<open>Two rows of the pool \<open>HetznerUS\<close>: one leased to \<open>uidA\<close> in room \<open>roomA\<close>, one
  available.\<close>

definition used_table :: "row list" where
  "used_table =
     [(demo_row 3 ''HetznerUS'' ''vm3'' Used 0 (Some (demo_vm ''vm3'')))
        \<lparr>readyTime := Some 500, assignTime := Some 600, heartbeatTime := Some 700, retries := 31,
         roomId := Some ''roomA'', uid := Some ''uidA''\<rparr>,
      demo_row 4 ''HetznerUS'' ''vm4'' Available 0 (Some (demo_vm ''vm4''))]"

text \<open>A staging row of the pool \<open>HetznerUS\<close> with a cached descriptor and the given
  number of retries so far.\<close>

definition staging_row :: "int \<Rightarrow> row" where
  "staging_row n = (demo_row 8 ''HetznerUS'' ''vm8'' Staging 0 (Some (demo_vm ''vm8'')))\<lparr>retries := n\<rparr>"

text \<open>Three available rows of the pool \<open>HetznerUS\<close>.  At the clock reading 10700000 (in
  milliseconds) the row with id 1 has been up for 5100 seconds, which is 1500 seconds
  into its second hour; the rows with ids 2 and 3 have been up for 10700 and 10600
  seconds, which is 3500 and 3400 seconds into their third hour.\<close>

definition shrink_table :: "row list" where
  "shrink_table =
     [demo_row 1 ''HetznerUS'' ''vm1'' Available 5600000 (Some (demo_vm ''vm1'')),
      demo_row 2 ''HetznerUS'' ''vm2'' Available 0 (Some (demo_vm ''vm2'')),
      demo_row 3 ''HetznerUS'' ''vm3'' Available 100000 (Some (demo_vm ''vm3''))]"

text \<open>A table whose first row was created 2200002900 seconds before the clock reading
  2900000, more than a 32-bit integer holds; the second row is 3500 seconds old.\<close>

definition ancient_table :: "row list" where
  "ancient_table =
     [demo_row 1 ''HetznerUS'' ''vm1'' Available (- 2200000000000) (Some (demo_vm ''vm1'')),
      demo_row 2 ''HetznerUS'' ''vm2'' Available (- 600000) (Some (demo_vm ''vm2''))]"

section \<open>The buffer calculator: properties\<close>

lemma trunc_of_int_div:
  "trunc (of_int k / of_int m) =
     (if (of_int k / of_int m :: real) < 0 then - ((- k) div m) else k div m)"
proof -
  have "\<lceil>(of_int k / of_int m :: real)\<rceil> = - ((- k) div m)"
    unfolding ceiling_def by (metis floor_divide_of_int_eq minus_divide_left of_int_minus)
  then show ?thesis unfolding trunc_def by (simp add: floor_divide_of_int_eq)
qed

text \<open>On integers the operator \<^verbatim>\<open>%\<close> is the remainder of truncated division.\<close>

lemma js_rem_of_int:
  assumes "0 < m"
  shows "js_rem (Num (of_int k)) (Num (of_int m)) =
           Num (of_int (if k < 0 then - ((- k) mod m) else k mod m))"
proof -
  have neg: "(of_int k / of_int m :: real) < 0 \<longleftrightarrow> k < 0"
    using assms by (simp add: divide_less_0_iff)
  have a: "k - m * (k div m) = k mod m" by (simp add: minus_mult_div_eq_mod)
  have b: "k - m * (- ((- k) div m)) = - ((- k) mod m)"
    using minus_mult_div_eq_mod [of "- k" m] by simp
  have "(of_int k :: real) - of_int m * of_int (trunc (of_int k / of_int m)) =
          of_int (k - m * trunc (of_int k / of_int m))"
    by simp
  also have "k - m * trunc (of_int k / of_int m) = (if k < 0 then - ((- k) mod m) else k mod m)"
    unfolding trunc_of_int_div neg using a b by simp
  finally show ?thesis using assms by simp
qed

text \<open>\<^verbatim>\<open>nonNegativeMod\<close> on integers is the mathematical residue.\<close>

lemma nonNegativeMod_of_int:
  assumes "0 < m"
  shows "nonNegativeMod (Num (of_int k)) (Num (of_int m)) = Num (of_int (k mod m))"
proof -
  define r where "r = (if k < 0 then - ((- k) mod m) else k mod m)"
  have r_gt: "- m < r"
  proof (cases "k < 0")
    case True
    then show ?thesis using pos_mod_bound [OF assms, of "- k"] by (simp add: r_def)
  next
    case False
    have "r = k mod m" using False by (simp add: r_def)
    moreover have "0 \<le> k mod m" using assms by simp
    ultimately show ?thesis using assms by linarith
  qed
  have r_mod: "r mod m = k mod m" unfolding r_def
    by (simp add: mod_minus_eq)
  have step1: "js_rem (Num (of_int k)) (Num (of_int m)) = Num (of_int r)"
    unfolding r_def by (rule js_rem_of_int [OF assms])
  have step2: "js_add (Num (of_int r)) (Num (of_int m)) = Num (of_int (r + m))"
    by simp
  have step3: "js_rem (Num (of_int (r + m))) (Num (of_int m)) = Num (of_int ((r + m) mod m))"
    using r_gt js_rem_of_int [OF assms, of "r + m"] by simp
  have "nonNegativeMod (Num (of_int k)) (Num (of_int m)) = Num (of_int ((r + m) mod m))"
    unfolding nonNegativeMod_def step1 step2 step3 ..
  also have "(r + m) mod m = k mod m" using r_mod by simp
  finally show ?thesis .
qed

lemma pointInInterval24_int:
  "pointInInterval24 (Num (of_int x)) (Num (of_int a)) (Num (of_int b))
     \<longleftrightarrow> (x - a) mod 24 \<le> (b - a) mod 24"
proof -
  have "pointInInterval24 (Num (of_int x)) (Num (of_int a)) (Num (of_int b)) =
      js_le (nonNegativeMod (Num (of_int (x - a))) (Num (of_int 24)))
            (nonNegativeMod (Num (of_int (b - a))) (Num (of_int 24)))"
    unfolding pointInInterval24_def by simp
  also have "\<dots> \<longleftrightarrow> (x - a) mod 24 \<le> (b - a) mod 24"
    unfolding nonNegativeMod_of_int [of 24, OF zero_less_numeral] by simp
  finally show ?thesis .
qed

text \<open>A window with a missing or non-numeric bound contains no hour.\<close>

lemma pointInInterval24_NaN:
  "\<not> pointInInterval24 x NaN b" "\<not> pointInInterval24 x a NaN"
  by (cases x; cases a; cases b; simp add: pointInInterval24_def nonNegativeMod_def)+

lemma demo_windows:
  "map demo_toNumber (split_on CHR '','' (VM_POOL_RAMP_DOWN_HOURS demo_config))
     = [Num (of_int 22), Num (of_int 4)]"
  "map demo_toNumber (split_on CHR '','' (VM_POOL_RAMP_UP_HOURS demo_config))
     = [Num (of_int 6), Num (of_int 10)]"
  by (simp_all add: demo_config_def demo_toNumber_def)

text \<open>
  C6.  For every limit and every hour, with the ramp windows configured as \<open>a,b\<close> and
  \<open>c,d\<close>: the base buffer is five percent of the limit; it is halved when the hour
  lies in the ramp-down window, where membership of \<open>x\<close> in the window from \<open>a\<close> to \<open>b\<close>
  is \<open>(x - a) mod 24 \<le> (b - a) mod 24\<close>; otherwise it is multiplied by 1.5 when the
  hour lies in the ramp-up window; otherwise it is left alone.  The result is the pair
  of the ceiling of that value and the ceiling of 1.5 times that value.  Ramp-down is
  tested first, so it wins where both windows contain the hour.
\<close>

theorem getAdjustedBuffer_windows:
  assumes down: "map toNum (split_on CHR '','' (VM_POOL_RAMP_DOWN_HOURS cfg))
                   = Num (of_int a) # Num (of_int b) # ds"
      and up: "map toNum (split_on CHR '','' (VM_POOL_RAMP_UP_HOURS cfg))
                   = Num (of_int c) # Num (of_int d) # us"
  shows "getAdjustedBuffer toNum cfg m hour =
           (let minBuffer = limitSize m * (5 / 100);
                adjusted = (if (hour - a) mod 24 \<le> (b - a) mod 24 then minBuffer / 2
                            else if (hour - c) mod 24 \<le> (d - c) mod 24 then minBuffer * (3 / 2)
                            else minBuffer)
            in (\<lceil>adjusted\<rceil>, \<lceil>adjusted * (3 / 2)\<rceil>))"
  unfolding getAdjustedBuffer_def getMinBuffer_def down up Let_def
  by (simp add: js_index_def pointInInterval24_int)

theorem getAdjustedBuffer_windows_witness:
  "getAdjustedBuffer demo_toNumber demo_config (demo_manager 100 1) 23 = (3, 4)
   \<and> getAdjustedBuffer demo_toNumber demo_config (demo_manager 100 1) 7 = (8, 12)
   \<and> getAdjustedBuffer demo_toNumber demo_config (demo_manager 100 1) 12 = (5, 8)"
  using getAdjustedBuffer_windows [OF demo_windows, of "demo_manager 100 1" 23]
        getAdjustedBuffer_windows [OF demo_windows, of "demo_manager 100 1" 7]
        getAdjustedBuffer_windows [OF demo_windows, of "demo_manager 100 1" 12]
  by (simp add: demo_manager_def)

section \<open>The relation between the two watermarks\<close>

lemma ceiling_three_halves:
  fixes b :: real
  assumes "0 \<le> b"
  shows "\<lceil>b\<rceil> \<le> \<lceil>b * (3 / 2)\<rceil>" and "\<lceil>b * (3 / 2)\<rceil> \<le> \<lceil>of_int \<lceil>b\<rceil> * (3 / 2 :: real)\<rceil>"
proof -
  have "b \<le> b * (3 / 2)" using assms by simp
  then show "\<lceil>b\<rceil> \<le> \<lceil>b * (3 / 2)\<rceil>" by (rule ceiling_mono)
  have "b \<le> of_int \<lceil>b\<rceil>" by (rule le_of_int_ceiling)
  then have "b * (3 / 2) \<le> of_int \<lceil>b\<rceil> * (3 / 2 :: real)" by simp
  then show "\<lceil>b * (3 / 2)\<rceil> \<le> \<lceil>of_int \<lceil>b\<rceil> * (3 / 2 :: real)\<rceil>" by (rule ceiling_mono)
qed

text \<open>The pair is always the two ceilings of one adjusted buffer, which is the base
  buffer times one half, one, or three halves.\<close>

lemma getAdjustedBuffer_shape:
  "\<exists>k \<in> {1 / 2, 1, 3 / 2}.
     getAdjustedBuffer toNum cfg m hour =
       (\<lceil>getMinBuffer m * k\<rceil>, \<lceil>getMinBuffer m * k * (3 / 2)\<rceil>)"
  unfolding getAdjustedBuffer_def Let_def by simp

lemma ceiling_one_divide_numeral:
  "\<lceil>1 / numeral b :: real\<rceil> = - (- 1 div numeral b)"
  using ceiling_divide_eq_div [of 1 "numeral b", where ?'a = real] by simp

lemma plain_windows:
  "map demo_toNumber (split_on CHR '','' (VM_POOL_RAMP_DOWN_HOURS plain_config)) = [Num 0]"
  "map demo_toNumber (split_on CHR '','' (VM_POOL_RAMP_UP_HOURS plain_config)) = [Num 0]"
  by (simp_all add: plain_config_def demo_toNumber_def)

text \<open>With the windows unset no hour is ramped, whatever the hour.\<close>

lemma getAdjustedBuffer_plain:
  "getAdjustedBuffer demo_toNumber plain_config m hour =
     (\<lceil>limitSize m * (5 / 100)\<rceil>, \<lceil>limitSize m * (5 / 100) * (3 / 2)\<rceil>)"
  unfolding getAdjustedBuffer_def getMinBuffer_def plain_windows Let_def
  by (simp add: js_index_def pointInInterval24_NaN)

text \<open>
  C9, as stated, fails.  With a limit of 10 and no ramp window the buffer is 0.5, so
  the pair is \<open>(1, 1)\<close>, while the formula of the claim gives 2 for the high watermark
  from the low watermark 1.  Reading \<open>low\<close> in the formula as the buffer before rounding
  does not save it: with a limit of 14 the buffer is 0.7 and the pair is \<open>(1, 2)\<close>, while
  the formula at 0.7 gives 1.  With a negative limit the high watermark can even be
  below the low one: a limit of \<open>-40\<close> gives \<open>(-2, -3)\<close>.
\<close>

theorem watermark_formula_counterexample:
  "getAdjustedBuffer demo_toNumber plain_config (demo_manager 10 0) 0 = (1, 1)
   \<and> \<not> watermarks_as_specified 1 1
   \<and> getAdjustedBuffer demo_toNumber plain_config (demo_manager 14 0) 0 = (1, 2)
   \<and> getMinBuffer (demo_manager 14 0) = 7 / 10
   \<and> watermark_formula (7 / 10) = 1
   \<and> getAdjustedBuffer demo_toNumber plain_config (demo_manager (- 40) 0) 0 = (- 2, - 3)"
proof -
  have "\<lceil>(147 / 200 :: real)\<rceil> = 1" by simp
  then have "watermark_formula (7 / 10) = 1"
    by (simp add: watermark_formula_def ceiling_one_divide_numeral)
  then show ?thesis
    by (simp add: getAdjustedBuffer_plain demo_manager_def watermarks_as_specified_def
          watermark_formula_def getMinBuffer_def ceiling_one_divide_numeral)
qed

text \<open>
  C9, amended.  For every hour and every limit that is not negative, the pair
  \<open>(low, high)\<close> consists of the ceiling of the adjusted buffer and the ceiling of 1.5
  times the adjusted buffer (not of 1.5 times \<open>low\<close>); hence \<open>low \<le> high\<close> and
  \<open>high \<le> ceil (low * 1.5)\<close>.
\<close>

theorem watermarks_ordered:
  assumes "0 \<le> limitSize m"
  shows "(let (low, high) = getAdjustedBuffer toNum cfg m hour
          in low \<le> high \<and> high \<le> \<lceil>of_int low * (3 / 2 :: real)\<rceil>)
         \<and> (\<exists>b::real. 0 \<le> b \<and> getAdjustedBuffer toNum cfg m hour = (\<lceil>b\<rceil>, \<lceil>b * (3 / 2)\<rceil>))"
proof -
  obtain k :: real where k: "k \<in> {1 / 2, 1, 3 / 2}"
    and eq: "getAdjustedBuffer toNum cfg m hour =
               (\<lceil>getMinBuffer m * k\<rceil>, \<lceil>getMinBuffer m * k * (3 / 2)\<rceil>)"
    using getAdjustedBuffer_shape by blast
  define b where "b = getMinBuffer m * k"
  have "0 \<le> k" using k by auto
  then have nonneg: "0 \<le> b"
    using assms by (simp add: getMinBuffer_def b_def)
  have eq': "getAdjustedBuffer toNum cfg m hour = (\<lceil>b\<rceil>, \<lceil>b * (3 / 2)\<rceil>)"
    using eq by (simp add: b_def)
  have first: "let (low, high) = getAdjustedBuffer toNum cfg m hour
               in low \<le> high \<and> high \<le> \<lceil>of_int low * (3 / 2 :: real)\<rceil>"
    unfolding eq' using ceiling_three_halves [OF nonneg] by simp
  have second: "\<exists>b::real. 0 \<le> b \<and> getAdjustedBuffer toNum cfg m hour = (\<lceil>b\<rceil>, \<lceil>b * (3 / 2)\<rceil>)"
    using nonneg eq' by (intro exI [of _ b] conjI)
  from first second show ?thesis by (rule conjI)
qed

theorem watermarks_ordered_witness:
  "(0::real) \<le> limitSize (demo_manager 10 0)
   \<and> ((let (low, high) = getAdjustedBuffer demo_toNumber plain_config (demo_manager 10 0) 0
        in low \<le> high \<and> high \<le> \<lceil>of_int low * (3 / 2 :: real)\<rceil>)
      \<and> (\<exists>b::real. 0 \<le> b \<and> getAdjustedBuffer demo_toNumber plain_config (demo_manager 10 0) 0
                          = (\<lceil>b\<rceil>, \<lceil>b * (3 / 2)\<rceil>)))"
proof -
  have h: "(0::real) \<le> limitSize (demo_manager 10 0)" by (simp add: demo_manager_def)
  from h watermarks_ordered [OF h, of demo_toNumber plain_config 0]
  show ?thesis by (rule conjI)
qed

section \<open>The readiness probe: properties\<close>

lemma replace_first_at:
  "c \<notin> set pre \<Longrightarrow> replace_first c new (pre @ c # post) = pre @ new @ post"
  by (induction pre) auto

lemma replace_first_absent:
  "c \<notin> set h \<Longrightarrow> replace_first c new h = h"
  by (induction h) auto

text \<open>What the probe answers once the response to its request is known.\<close>

lemma checkVMReady_response:
  "checkVMReady e h =
     (case http_get e (''https://'' @ replace_first CHR ''/'' ''/health'' h) of
        HttpError \<Rightarrow> False
      | HttpOk boot \<Rightarrow>
          (if process_NODE_ENV e = ''production''
           then (\<exists>b. boot = Num b \<and> of_int (now e) / 1000 - b < 60000)
           else True))"
proof (cases "http_get e (''https://'' @ replace_first CHR ''/'' ''/health'' h)")
  case (HttpOk boot)
  then show ?thesis
    by (cases boot) (simp_all add: checkVMReady_def)
next
  case HttpError
  then show ?thesis by (simp add: checkVMReady_def)
qed

text \<open>
  C7.  For every host, the probe requests the URL made of \<open>https://\<close> and the host
  with its first \<open>/\<close> replaced by \<open>/health\<close> (a host without \<open>/\<close> is left as it is).
  When the request fails in any way the probe answers not ready.  When it succeeds,
  the answer in production mode is whether the clock in seconds minus the boot time of
  the response body is below 60000 (a body that is not a number is not ready), and in
  any other mode, development among them, the answer is ready.
\<close>

theorem checkVMReady_spec:
  assumes "CHR ''/'' \<notin> set pre"
  shows "checkVMReady e (pre @ ''/'' @ post) =
           (case http_get e (''https://'' @ pre @ ''/health'' @ post) of
              HttpError \<Rightarrow> False
            | HttpOk boot \<Rightarrow>
                (if process_NODE_ENV e = ''production''
                 then (\<exists>b. boot = Num b \<and> of_int (now e) / 1000 - b < 60000)
                 else True))
         \<and> checkVMReady e pre =
           (case http_get e (''https://'' @ pre) of
              HttpError \<Rightarrow> False
            | HttpOk boot \<Rightarrow>
                (if process_NODE_ENV e = ''production''
                 then (\<exists>b. boot = Num b \<and> of_int (now e) / 1000 - b < 60000)
                 else True))"
proof -
  have found: "replace_first CHR ''/'' ''/health'' (pre @ ''/'' @ post) = pre @ ''/health'' @ post"
    using replace_first_at [OF assms, of "''/health''" post] by simp
  have absent: "replace_first CHR ''/'' ''/health'' pre = pre"
    using assms by (rule replace_first_absent)
  have first: "checkVMReady e (pre @ ''/'' @ post) =
           (case http_get e (''https://'' @ pre @ ''/health'' @ post) of
              HttpError \<Rightarrow> False
            | HttpOk boot \<Rightarrow>
                (if process_NODE_ENV e = ''production''
                 then (\<exists>b. boot = Num b \<and> of_int (now e) / 1000 - b < 60000)
                 else True))"
    unfolding checkVMReady_response found ..
  have second: "checkVMReady e pre =
           (case http_get e (''https://'' @ pre) of
              HttpError \<Rightarrow> False
            | HttpOk boot \<Rightarrow>
                (if process_NODE_ENV e = ''production''
                 then (\<exists>b. boot = Num b \<and> of_int (now e) / 1000 - b < 60000)
                 else True))"
    unfolding checkVMReady_response absent ..
  from first second show ?thesis by (rule conjI)
qed

theorem checkVMReady_spec_witness:
  "CHR ''/'' \<notin> set ''gateway.example.com''
   \<and> checkVMReady (demo_env (\<lambda>u. if u = ''https://gateway.example.com/health?ip=10.0.0.5''
                                     then HttpOk (Num 1699990000) else HttpError)
                              ''production'' 1700000000000)
        ''gateway.example.com/?ip=10.0.0.5''
   \<and> \<not> checkVMReady (demo_env (\<lambda>u. if u = ''https://gateway.example.com/health?ip=10.0.0.5''
                                     then HttpOk (Num 1699940000) else HttpError)
                              ''production'' 1700000000000)
        ''gateway.example.com/?ip=10.0.0.5''
   \<and> checkVMReady (demo_env (\<lambda>u. if u = ''https://gateway.example.com/health?ip=10.0.0.5''
                                     then HttpOk (Num 1699940000) else HttpError)
                              ''development'' 1700000000000)
        ''gateway.example.com/?ip=10.0.0.5''
   \<and> \<not> checkVMReady (demo_env (\<lambda>u. HttpError) ''development'' 1700000000000)
        ''gateway.example.com/?ip=10.0.0.5''"
proof -
  have h: "CHR ''/'' \<notin> set ''gateway.example.com''" by simp
  show ?thesis
    using h checkVMReady_spec [OF h, where post = "''?ip=10.0.0.5''"]
    by (simp add: demo_env_def)
qed

section \<open>Selection by id\<close>

lemma sorted_nth_least:
  assumes "sorted (map f xs)" and "n \<le> k" and "k < length xs"
  shows "f (xs ! n) \<le> f (xs ! k)"
  using assms sorted_nth_mono [of "map f xs" n k] by simp

text \<open>The row that \<^verbatim>\<open>ORDER BY id ASC LIMIT 1 OFFSET n\<close> yields is the one at position \<open>n\<close>
  of the kept rows in ascending order of id, when there are more than \<open>n\<close> of them.\<close>

lemma first_by_id_eq:
  "first_by_id n cond tbl =
     (if n < length (filter cond tbl)
      then Some (rid (sort_key rid (filter cond tbl) ! n))
      else None)"
proof (cases "n < length (filter cond tbl)")
  case True
  then have "n < length (sort_key rid (filter cond tbl))" by simp
  then have "drop n (sort_key rid (filter cond tbl)) =
               sort_key rid (filter cond tbl) ! n # drop (Suc n) (sort_key rid (filter cond tbl))"
    by (simp add: Cons_nth_drop_Suc)
  then show ?thesis using True by (simp add: first_by_id_def)
next
  case False
  then show ?thesis by (simp add: first_by_id_def)
qed

lemma first_by_id_0_None:
  "first_by_id 0 cond tbl = None \<longleftrightarrow> (\<forall>r \<in> set tbl. \<not> cond r)"
  by (simp add: first_by_id_eq filter_empty_conv)

lemma first_by_id_0_Some:
  assumes "first_by_id 0 cond tbl = Some i"
  shows "\<exists>r \<in> set tbl. cond r \<and> rid r = i \<and> (\<forall>r' \<in> set tbl. cond r' \<longrightarrow> i \<le> rid r')"
proof -
  let ?s = "sort_key rid (filter cond tbl)"
  have len: "0 < length ?s" and i: "i = rid (?s ! 0)"
    using assms by (auto simp: first_by_id_eq split: if_splits)
  have mem: "?s ! 0 \<in> set ?s" using len by (rule nth_mem)
  then have in_tbl: "?s ! 0 \<in> set tbl" and keeps: "cond (?s ! 0)" by auto
  have least: "i \<le> rid r'" if "r' \<in> set tbl" "cond r'" for r'
  proof -
    have "r' \<in> set ?s" using that by simp
    then obtain k where k: "k < length ?s" "?s ! k = r'"
      unfolding in_set_conv_nth by blast
    have "rid (?s ! 0) \<le> rid (?s ! k)"
      by (rule sorted_nth_least [OF sorted_sort_key _ k(1)]) simp
    then show ?thesis using i k by simp
  qed
  show ?thesis using in_tbl keeps i least by blast
qed

text \<open>With ids as a key, an update by id changes one position of the table.\<close>

lemma map_by_key_update:
  assumes "distinct (map g xs)" and "i < length xs"
  shows "map (\<lambda>x. if g x = g (xs ! i) then f x else x) xs = xs[i := f (xs ! i)]"
proof (rule nth_equalityI)
  show "length (map (\<lambda>x. if g x = g (xs ! i) then f x else x) xs) = length (xs[i := f (xs ! i)])"
    by simp
next
  fix j assume "j < length (map (\<lambda>x. if g x = g (xs ! i) then f x else x) xs)"
  then have j: "j < length xs" by simp
  have "g (xs ! j) = g (xs ! i) \<longleftrightarrow> j = i"
    using assms j nth_eq_iff_index_eq [of "map g xs" j i] by simp
  then show "map (\<lambda>x. if g x = g (xs ! i) then f x else x) xs ! j = xs[i := f (xs ! i)] ! j"
    using j assms(2) by (simp add: nth_list_update)
qed

lemma filter_eq_single:
  "distinct xs \<Longrightarrow> y \<in> set xs \<Longrightarrow> filter (\<lambda>x. x = y) xs = [y]"
proof (induction xs)
  case Nil
  then show ?case by simp
next
  case (Cons a xs)
  show ?case
  proof (cases "a = y")
    case True
    then have "\<forall>x \<in> set xs. x \<noteq> y" using Cons.prems(1) by auto
    then have "filter (\<lambda>x. x = y) xs = []" by (simp add: filter_empty_conv)
    then show ?thesis using True by simp
  next
    case False
    then show ?thesis using Cons by auto
  qed
qed

lemma filter_by_key_single:
  assumes "distinct (map g xs)" and "i < length xs"
  shows "filter (\<lambda>x. g x = g (xs ! i)) xs = [xs ! i]"
proof -
  have d: "distinct xs" using assms(1) by (simp add: distinct_map)
  have mem: "xs ! i \<in> set xs" using assms(2) by simp
  have "filter (\<lambda>x. g x = g (xs ! i)) xs = filter (\<lambda>x. x = xs ! i) xs"
  proof (rule filter_cong [OF refl])
    fix x assume "x \<in> set xs"
    then show "(g x = g (xs ! i)) = (x = xs ! i)"
      using assms(1) mem by (auto simp: distinct_map inj_on_def)
  qed
  also have "\<dots> = [xs ! i]"
    using d mem by (rule filter_eq_single)
  finally show ?thesis .
qed

section \<open>The lease statement: properties\<close>

lemma getAssignedVM_none:
  assumes "\<forall>r \<in> set tbl. \<not> (pool r = p \<and> state r = Available)"
  shows "getAssignedVM p room u t tbl = (None, tbl)"
proof -
  have "first_by_id 0 (in_pool p Available) tbl = None"
    using assms by (simp add: first_by_id_0_None in_pool_def)
  then show ?thesis by (simp add: getAssignedVM_def)
qed

lemma getAssignedVM_some:
  assumes d: "distinct (map rid tbl)"
      and ex: "\<exists>r \<in> set tbl. pool r = p \<and> state r = Available"
  shows "\<exists>i < length tbl.
           pool (tbl ! i) = p \<and> state (tbl ! i) = Available
           \<and> (\<forall>r \<in> set tbl. pool r = p \<and> state r = Available \<longrightarrow> rid (tbl ! i) \<le> rid r)
           \<and> getAssignedVM p room u t tbl = (data (tbl ! i), tbl[i := lease room u t (tbl ! i)])"
proof -
  have "first_by_id 0 (in_pool p Available) tbl \<noteq> None"
    using ex by (simp add: first_by_id_0_None in_pool_def)
  then obtain k where k: "first_by_id 0 (in_pool p Available) tbl = Some k" by blast
  from first_by_id_0_Some [OF k] obtain r where r: "r \<in> set tbl" "in_pool p Available r"
    "rid r = k" "\<forall>r' \<in> set tbl. in_pool p Available r' \<longrightarrow> k \<le> rid r'"
    by blast
  from r(1) obtain i where i: "i < length tbl" "tbl ! i = r" by (auto simp: in_set_conv_nth)
  have sel: "filter (\<lambda>x. rid x = k) tbl = [tbl ! i]"
    using filter_by_key_single [OF d i(1)] i(2) r(3) by simp
  have upd: "map (\<lambda>x. if rid x = k then lease room u t x else x) tbl = tbl[i := lease room u t (tbl ! i)]"
    using map_by_key_update [OF d i(1), of "lease room u t"] i(2) r(3) by simp
  have res: "getAssignedVM p room u t tbl = (data (tbl ! i), tbl[i := lease room u t (tbl ! i)])"
    by (simp add: getAssignedVM_def k sel upd)
  show ?thesis
    using i r res by (auto simp: in_pool_def)
qed

text \<open>
  C1.  For every pool and every table in which the ids are a key, the lease statement
  of \<^verbatim>\<open>assignVM\<close> behaves as follows.  If the pool has an available row, exactly one
  position of the table changes; the row there has the pool's name and the state
  available, and its id is the lowest among such rows; it gets the room id, the uid,
  the heartbeat time, the assign time and the state used, and the statement returns the
  \<open>data\<close> the row had.  If the pool has no available row, nothing changes and nothing
  is returned.  Rows of other pools or in other states are never the one selected.
\<close>

theorem lease_lowest_available:
  assumes "distinct (map rid tbl)"
  shows "if \<exists>r \<in> set tbl. pool r = p \<and> state r = Available
         then \<exists>i < length tbl.
                pool (tbl ! i) = p \<and> state (tbl ! i) = Available
                \<and> (\<forall>r \<in> set tbl. pool r = p \<and> state r = Available \<longrightarrow> rid (tbl ! i) \<le> rid r)
                \<and> getAssignedVM p room u t tbl =
                    (data (tbl ! i),
                     tbl[i := (tbl ! i)\<lparr>roomId := Some room, uid := Some u, heartbeatTime := Some t,
                                       assignTime := Some t, state := Used\<rparr>])
         else getAssignedVM p room u t tbl = (None, tbl)"
proof (cases "\<exists>r \<in> set tbl. pool r = p \<and> state r = Available")
  case True
  show ?thesis
    unfolding if_P [OF True]
    using getAssignedVM_some [OF assms True, of room u t] unfolding lease_def .
next
  case False
  then have none: "\<forall>r \<in> set tbl. \<not> (pool r = p \<and> state r = Available)" by blast
  show ?thesis
    unfolding if_not_P [OF False] using none by (rule getAssignedVM_none)
qed
theorem lease_lowest_available_witness:
  "distinct (map rid lease_table)
   \<and> getAssignedVM ''HetznerUS'' ''roomA'' ''uidA'' 1000 lease_table =
       (Some (demo_vm ''vm3''),
        [demo_row 5 ''HetznerUS'' ''vm5'' Staging 0 None,
         (demo_row 3 ''HetznerUS'' ''vm3'' Available 0 (Some (demo_vm ''vm3'')))
           \<lparr>roomId := Some ''roomA'', uid := Some ''uidA'', heartbeatTime := Some 1000,
            assignTime := Some 1000, state := Used\<rparr>,
         demo_row 2 ''HetznerEU'' ''vm2'' Available 0 (Some (demo_vm ''vm2'')),
         demo_row 4 ''HetznerUS'' ''vm4'' Available 0 (Some (demo_vm ''vm4''))])"
proof -
  have h: "distinct (map rid lease_table)"
    by (simp add: lease_table_def demo_row_def fresh_row_def)
  have ex: "\<exists>r \<in> set lease_table. pool r = ''HetznerUS'' \<and> state r = Available"
    by (simp add: lease_table_def demo_row_def fresh_row_def)
  from lease_lowest_available [OF h, of "''HetznerUS''" "''roomA''" "''uidA''" 1000]
  obtain i where i: "i < length lease_table"
      "pool (lease_table ! i) = ''HetznerUS''" "state (lease_table ! i) = Available"
      "\<forall>r \<in> set lease_table. pool r = ''HetznerUS'' \<and> state r = Available
          \<longrightarrow> rid (lease_table ! i) \<le> rid r"
      "getAssignedVM ''HetznerUS'' ''roomA'' ''uidA'' 1000 lease_table =
         (data (lease_table ! i),
          lease_table[i := (lease_table ! i)\<lparr>roomId := Some ''roomA'', uid := Some ''uidA'',
             heartbeatTime := Some 1000, assignTime := Some 1000, state := Used\<rparr>])"
    unfolding if_P [OF ex] by blast
  have "i = 0 \<or> i = 1 \<or> i = 2 \<or> i = 3"
    using i(1) by (auto simp: lease_table_def)
  then have "i = 1"
    using i(2,3,4) by (auto simp: lease_table_def demo_row_def fresh_row_def)
  then show ?thesis
    using h i(5) by (simp add: lease_table_def demo_row_def fresh_row_def)
qed

section \<open>The assignment protocol: properties\<close>

lemma say_fields:
  "vbrowser (say ss w) = vbrowser w" "next_id (say ss w) = next_id w"
  "redis (say ss w) = redis w" "events (say ss w) = events w @ map Db ss"
  by (simp_all add: say_def)

lemma call_fields:
  "vbrowser (call c w) = vbrowser w" "next_id (call c w) = next_id w"
  "redis (call c w) = redis w" "events (call c w) = events w @ [Api c]"
  by (simp_all add: call_def)

lemma redis_fields:
  "vbrowser (redis_lpush k v w) = vbrowser w" "next_id (redis_lpush k v w) = next_id w"
  "events (redis_lpush k v w) = events w"
  "vbrowser (redis_ltrim k a b w) = vbrowser w" "next_id (redis_ltrim k a b w) = next_id w"
  "events (redis_ltrim k a b w) = events w"
  "vbrowser (redisCount k w) = vbrowser w" "next_id (redisCount k w) = next_id w"
  "events (redisCount k w) = events w"
  by (simp_all add: redis_lpush_def redis_ltrim_def redisCount_def)

text \<open>The retry loop writes nothing that is committed: it only adds its two statements
  per pass to the log.\<close>

lemma lease_loop_frame:
  "vbrowser (loop_world (lease_loop p room u ticks view w)) = vbrowser w"
  "next_id (loop_world (lease_loop p room u ticks view w)) = next_id w"
  "redis (loop_world (lease_loop p room u ticks view w)) = redis w"
  by (induction p room u ticks view w rule: lease_loop.induct;
      simp add: loop_world_def say_fields split: prod.splits option.splits)+

lemma lease_loop_events:
  "\<exists>ss. events (loop_world (lease_loop p room u ticks view w)) = events w @ map Db ss
        \<and> set ss \<subseteq> {SelectQueue room, UpdateLease}"
proof (induction p room u ticks view w rule: lease_loop.induct)
  case (1 p room u view w)
  show ?case
    by (intro exI [of _ "[]"]) (simp add: loop_world_def)
next
  case (2 p room u ts view w)
  show ?case
    by (intro exI [of _ "[SelectQueue room]"]) (simp add: loop_world_def say_fields)
next
  case (3 p room u inQueue t ts view w)
  show ?case
  proof (cases inQueue)
    case False
    then show ?thesis
      by (intro exI [of _ "[SelectQueue room]"]) (simp add: loop_world_def say_fields)
  next
    case True
    obtain sel view' where g: "getAssignedVM p room u t view = (sel, view')"
      by (cases "getAssignedVM p room u t view")
    let ?w1 = "say [SelectQueue room, UpdateLease] w"
    show ?thesis
    proof (cases sel)
      case None
      from "3.IH" [OF _ g [symmetric] None] True
      obtain ss where ss:
          "events (loop_world (lease_loop p room u ts view' ?w1)) = events ?w1 @ map Db ss"
          "set ss \<subseteq> {SelectQueue room, UpdateLease}"
        by auto
      have step: "lease_loop p room u (Tick inQueue t # ts) view w = lease_loop p room u ts view' ?w1"
        using True g None by simp
      show ?thesis unfolding step using ss
        by (intro exI [of _ "[SelectQueue room, UpdateLease] @ ss"]) (simp add: say_fields)
    next
      case (Some vm)
      have step: "lease_loop p room u (Tick inQueue t # ts) view w = Selected vm t view' ?w1"
        using True g Some by simp
      show ?thesis unfolding step
        by (intro exI [of _ "[SelectQueue room, UpdateLease]"]) (simp add: loop_world_def say_fields)
    qed
  qed
qed

text \<open>A loop that is still waiting after some passes goes on from where it stands.\<close>

lemma lease_loop_append:
  "lease_loop p room u pre view w = StillWaiting view' w'
   \<Longrightarrow> lease_loop p room u (pre @ rest) view w = lease_loop p room u rest view' w'"
proof (induction p room u pre view w rule: lease_loop.induct)
  case (1 p room u view w)
  then show ?case by simp
next
  case (2 p room u ts view w)
  then show ?case by simp
next
  case (3 p room u inQueue t ts view w)
  then show ?case
    by (auto split: if_splits prod.splits option.splits)
qed

text \<open>
  C10.  For every call of \<^verbatim>\<open>assignVM\<close> whose room id or uid is empty, the call returns
  \<^verbatim>\<open>undefined\<close> at once and leaves the world as it was: the table, the id sequence and
  the metrics are unchanged and the log of events has no new entry, so no transaction
  was opened, no provider call made, and no statement, reading or writing, was sent.
\<close>

theorem assignVM_falsy:
  assumes "room = [] \<or> u = []"
  shows "assignVM e m room u ticks w = Returned None w"
  using assms by (simp add: assignVM_def)

theorem assignVM_falsy_witness:
  "(([] :: string) = [] \<or> ''uidA'' = [])
   \<and> assignVM (demo_env offline ''production'' 1000) (demo_manager 100 0) [] ''uidA''
        [Tick True 5] (demo_world lease_table)
       = Returned None (demo_world lease_table)"
proof -
  have h: "([] :: string) = [] \<or> ''uidA'' = []" by simp
  from h assignVM_falsy [OF h] show ?thesis by (rule conjI)
qed

section \<open>Warm on demand\<close>

lemma startVMWrapper_world:
  "vbrowser (snd (startVMWrapper e m w)) =
     vbrowser w @ (case startVM e (uuid e) of
                     None \<Rightarrow> []
                   | Some v \<Rightarrow> [fresh_row (next_id w) (getPoolName m) v (now e)])"
  "events (snd (startVMWrapper e m w)) =
     events w @ [Api (StartVM (uuid e))] @
       (case startVM e (uuid e) of None \<Rightarrow> [] | Some v \<Rightarrow> [Db InsertStaging])"
  by (simp_all add: startVMWrapper_def Let_def say_fields call_fields redis_fields
        split: option.splits)

lemma spawnIfNoneAvailable_world:
  "vbrowser (spawnIfNoneAvailable e m w) =
     vbrowser w @
       (if minSize m = 0 \<and> getAvailableCount m (vbrowser w) = 0
        then (case startVM e (uuid e) of
                None \<Rightarrow> []
              | Some v \<Rightarrow> [fresh_row (next_id w) (getPoolName m) v (now e)])
        else [])"
  "events (spawnIfNoneAvailable e m w) =
     events w @
       (if minSize m = 0
        then Db CountAvailable #
             (if getAvailableCount m (vbrowser w) = 0
              then Api (StartVM (uuid e)) #
                   (case startVM e (uuid e) of None \<Rightarrow> [] | Some v \<Rightarrow> [Db InsertStaging])
              else [])
        else [])"
  by (simp_all add: spawnIfNoneAvailable_def Let_def startVMWrapper_world say_fields
        split: option.splits)

text \<open>A lease changes no id, and with ids as a key it changes no row that is not
  available.\<close>

lemma getAssignedVM_ids:
  "map rid (snd (getAssignedVM p room u t tbl)) = map rid tbl"
proof (cases "first_by_id 0 (in_pool p Available) tbl")
  case None
  then show ?thesis by (simp add: getAssignedVM_def)
next
  case (Some i)
  have "rid (if rid x = i then lease room u t x else x) = rid x" for x
    by (simp add: lease_def)
  then have "map rid (map (\<lambda>x. if rid x = i then lease room u t x else x) tbl) = map rid tbl"
    by (simp only: map_map comp_def)
  then show ?thesis
    by (simp add: getAssignedVM_def Some split: list.splits)
qed

lemma getAssignedVM_keeps:
  assumes "distinct (map rid tbl)" and "r \<in> set tbl" and "state r \<noteq> Available"
  shows "r \<in> set (snd (getAssignedVM p room u t tbl))"
proof (cases "first_by_id 0 (in_pool p Available) tbl")
  case None
  then show ?thesis using assms(2) by (simp add: getAssignedVM_def)
next
  case (Some i)
  from first_by_id_0_Some [OF Some] obtain r1 where r1: "r1 \<in> set tbl"
      "in_pool p Available r1" "rid r1 = i"
    by blast
  have inj: "inj_on rid (set tbl)" using assms(1) by (simp add: distinct_map)
  have differ: "rid r \<noteq> i"
  proof
    assume "rid r = i"
    then have same: "rid r = rid r1" using r1(3) by simp
    from inj same assms(2) r1(1) have "r = r1" by (rule inj_onD)
    then show False using r1(2) assms(3) by (simp add: in_pool_def)
  qed
  let ?f = "\<lambda>x. if rid x = i then lease room u t x else x"
  have "?f r = r" using differ by simp
  moreover have "?f r \<in> set (map ?f tbl)" using assms(2) by simp
  ultimately have mapped: "r \<in> set (map ?f tbl)" by simp
  show ?thesis
  proof (cases "filter (\<lambda>r. rid r = i) tbl")
    case Nil
    then show ?thesis using assms(2) by (simp add: getAssignedVM_def Some)
  next
    case (Cons r0 rest)
    then show ?thesis using mapped by (simp add: getAssignedVM_def Some)
  qed
qed

lemma lease_loop_keeps:
  assumes "lease_loop p room u ticks view w = Selected vm t view' w'"
      and "distinct (map rid view)" and "r \<in> set view" and "state r \<noteq> Available"
  shows "r \<in> set view'"
  using assms
proof (induction p room u ticks view w rule: lease_loop.induct)
  case (1 p room u view w)
  then show ?case by simp
next
  case (2 p room u ts view w)
  then show ?case by simp
next
  case (3 p room u inQueue t0 ts view w)
  obtain sel v1 where g: "getAssignedVM p room u t0 view = (sel, v1)"
    by (cases "getAssignedVM p room u t0 view")
  have q: inQueue using "3.prems"(1) by (auto split: if_splits)
  have d1: "distinct (map rid v1)"
    using getAssignedVM_ids [of p room u t0 view] g "3.prems"(2) by simp
  have r1: "r \<in> set v1"
    using getAssignedVM_keeps [OF "3.prems"(2,3,4), of p room u t0] g by simp
  show ?case
  proof (cases sel)
    case None
    have "lease_loop p room u ts v1 (say [SelectQueue room, UpdateLease] w) = Selected vm t view' w'"
      using "3.prems"(1) q g None by simp
    from "3.IH" [OF _ g [symmetric] None this d1 r1 "3.prems"(4)] q show ?thesis by simp
  next
    case (Some vm0)
    then have "view' = v1" using "3.prems"(1) q g by simp
    then show ?thesis using r1 by simp
  qed
qed
lemma say_say: "say ss (say ts w) = say (ts @ ss) w"
  by (simp add: say_def)

text \<open>The world an unfinished or finished call leaves, from the result of its loop.\<close>

lemma assignVM_unfold:
  assumes "room \<noteq> []" and "u \<noteq> []"
  shows "assignVM e m room u ticks w =
           (case lease_loop (getPoolName m) room u ticks
                   (vbrowser (spawnIfNoneAvailable e m (say [BeginTransaction] w)))
                   (spawnIfNoneAvailable e m (say [BeginTransaction] w)) of
              StillWaiting view w2 \<Rightarrow> Waiting w2
            | RoomLeft w2 \<Rightarrow> Returned None (say [RollbackTransaction, EndConnection] w2)
            | Threw w2 \<Rightarrow> Returned None (say [RollbackTransaction, EndConnection] w2)
            | Selected vm t view w2 \<Rightarrow>
                Returned (Some (assigned vm t))
                  (say [CommitTransaction, EndConnection]
                     ((redis_ltrim ''vBrowserStartMS'' 0 24
                         (redis_lpush ''vBrowserStartMS'' (MNum (t - now e)) w2))
                      \<lparr>vbrowser := view\<rparr>)))"
  using assms by (simp add: assignVM_def Let_def split: loop_result.splits)

text \<open>
  C2.  For every call of \<^verbatim>\<open>assignVM\<close> with a room id and a uid: if the retry loop is
  still running after some passes, and the next pass finds no row for the room in the
  queue, then the call sends \<^verbatim>\<open>ROLLBACK\<close>, closes its connection and returns
  \<^verbatim>\<open>undefined\<close>.  The committed table is then the table the call started from,
  followed by the staging row of the warm-on-demand launch when there was one: no
  lease the loop attempted in the earlier passes is in it.
\<close>

theorem assignVM_room_left_rolls_back:
  assumes "room \<noteq> []" and "u \<noteq> []"
      and "assignVM e m room u pre w = Waiting wp"
  shows "assignVM e m room u (pre @ Tick False t # post) w =
           Returned None (say [SelectQueue room, RollbackTransaction, EndConnection] wp)
         \<and> vbrowser (say [SelectQueue room, RollbackTransaction, EndConnection] wp) =
             vbrowser w @
               (if minSize m = 0 \<and> getAvailableCount m (vbrowser w) = 0
                then (case startVM e (uuid e) of
                        None \<Rightarrow> []
                      | Some v \<Rightarrow> [fresh_row (next_id w) (getPoolName m) v (now e)])
                else [])"
proof -
  let ?w1 = "spawnIfNoneAvailable e m (say [BeginTransaction] w)"
  let ?p = "getPoolName m"
  obtain view where loop: "lease_loop ?p room u pre (vbrowser ?w1) ?w1 = StillWaiting view wp"
    using assms(3) unfolding assignVM_unfold [OF assms(1,2)]
    by (cases "lease_loop ?p room u pre (vbrowser ?w1) ?w1") simp_all
  have "lease_loop ?p room u (pre @ Tick False t # post) (vbrowser ?w1) ?w1 =
          lease_loop ?p room u (Tick False t # post) view wp"
    using loop by (rule lease_loop_append)
  then have left: "lease_loop ?p room u (pre @ Tick False t # post) (vbrowser ?w1) ?w1 =
                     RoomLeft (say [SelectQueue room] wp)"
    by simp
  have result: "assignVM e m room u (pre @ Tick False t # post) w =
                  Returned None (say [SelectQueue room, RollbackTransaction, EndConnection] wp)"
    unfolding assignVM_unfold [OF assms(1,2)] left by (simp add: say_say)
  have "vbrowser (loop_world (lease_loop ?p room u pre (vbrowser ?w1) ?w1)) = vbrowser ?w1"
    by (rule lease_loop_frame)
  then have "vbrowser wp = vbrowser ?w1"
    unfolding loop by (simp add: loop_world_def)
  then have table: "vbrowser (say [SelectQueue room, RollbackTransaction, EndConnection] wp) =
      vbrowser w @
        (if minSize m = 0 \<and> getAvailableCount m (vbrowser w) = 0
         then (case startVM e (uuid e) of
                 None \<Rightarrow> []
               | Some v \<Rightarrow> [fresh_row (next_id w) (getPoolName m) v (now e)])
         else [])"
    by (simp add: say_fields spawnIfNoneAvailable_world split: option.splits)
  from result table show ?thesis by (rule conjI)
qed

lemma demo_world_fields:
  "vbrowser (demo_world tbl) = tbl" "next_id (demo_world tbl) = 100" "events (demo_world tbl) = []"
  by (simp_all add: demo_world_def)

text \<open>The room waits for one pass, in which the lease takes a row without a descriptor
  inside the transaction; then it leaves the queue.  The row is available as before.\<close>

theorem assignVM_room_left_rolls_back_witness:
  "''roomC'' \<noteq> [] \<and> ''uidC'' \<noteq> []
   \<and> assignVM (demo_env offline ''production'' 1000) (demo_manager 100 1) ''roomC'' ''uidC''
        [Tick True 2000] (demo_world bare_table)
      = Waiting (say [BeginTransaction, SelectQueue ''roomC'', UpdateLease] (demo_world bare_table))
   \<and> assignVM (demo_env offline ''production'' 1000) (demo_manager 100 1) ''roomC'' ''uidC''
        ([Tick True 2000] @ Tick False 3000 # []) (demo_world bare_table)
      = Returned None
          (say [BeginTransaction, SelectQueue ''roomC'', UpdateLease, SelectQueue ''roomC'',
                RollbackTransaction, EndConnection] (demo_world bare_table))
   \<and> vbrowser (say [BeginTransaction, SelectQueue ''roomC'', UpdateLease, SelectQueue ''roomC'',
                RollbackTransaction, EndConnection] (demo_world bare_table)) = bare_table"
proof -
  have r: "''roomC'' \<noteq> []" and u: "''uidC'' \<noteq> []" by simp_all
  have lease1: "getAssignedVM ''HetznerUS'' ''roomC'' ''uidC'' 2000 bare_table =
                  (None, [lease ''roomC'' ''uidC'' 2000 (demo_row 7 ''HetznerUS'' ''vm7'' Available 0 None)])"
    by (simp add: getAssignedVM_def first_by_id_def in_pool_def bare_table_def demo_row_def
          fresh_row_def)
  have waiting: "assignVM (demo_env offline ''production'' 1000) (demo_manager 100 1)
                   ''roomC'' ''uidC'' [Tick True 2000] (demo_world bare_table)
                 = Waiting (say [BeginTransaction, SelectQueue ''roomC'', UpdateLease]
                              (demo_world bare_table))"
    unfolding assignVM_unfold [OF r u]
    by (simp add: spawnIfNoneAvailable_def demo_manager_def getPoolName_def say_fields lease1
          say_say demo_world_fields)
  from assignVM_room_left_rolls_back [OF r u waiting, of 3000 "[]"]
  show ?thesis
    using r u waiting
    by (simp add: say_say say_fields demo_manager_def demo_world_fields)
qed
text \<open>What a call has logged is the log of its loop followed by the statements that end
  the transaction.\<close>

lemma assignVM_events:
  assumes "room \<noteq> []" and "u \<noteq> []"
  shows "\<exists>fin. events (outcome_world (assignVM e m room u ticks w)) =
           events (loop_world (lease_loop (getPoolName m) room u ticks
                     (vbrowser (spawnIfNoneAvailable e m (say [BeginTransaction] w)))
                     (spawnIfNoneAvailable e m (say [BeginTransaction] w)))) @ map Db fin
         \<and> set fin \<subseteq> {CommitTransaction, RollbackTransaction, EndConnection}"
proof (cases "lease_loop (getPoolName m) room u ticks
                (vbrowser (spawnIfNoneAvailable e m (say [BeginTransaction] w)))
                (spawnIfNoneAvailable e m (say [BeginTransaction] w))")
  case (StillWaiting view w2)
  show ?thesis unfolding assignVM_unfold [OF assms] StillWaiting
    by (intro exI [of _ "[]"]) (simp add: outcome_world_def loop_world_def)
next
  case (RoomLeft w2)
  show ?thesis unfolding assignVM_unfold [OF assms] RoomLeft
    by (intro exI [of _ "[RollbackTransaction, EndConnection]"])
       (simp add: outcome_world_def loop_world_def say_fields)
next
  case (Threw w2)
  show ?thesis unfolding assignVM_unfold [OF assms] Threw
    by (intro exI [of _ "[RollbackTransaction, EndConnection]"])
       (simp add: outcome_world_def loop_world_def say_fields)
next
  case (Selected vm t view w2)
  show ?thesis unfolding assignVM_unfold [OF assms] Selected
    by (intro exI [of _ "[CommitTransaction, EndConnection]"])
       (simp add: outcome_world_def loop_world_def say_fields say_def redis_fields)
qed

text \<open>A staging row that is in the table when the loop starts is in the table the call
  leaves.\<close>

lemma assignVM_keeps_staging:
  assumes "room \<noteq> []" and "u \<noteq> []"
      and "distinct (map rid (vbrowser (spawnIfNoneAvailable e m (say [BeginTransaction] w))))"
      and "r \<in> set (vbrowser (spawnIfNoneAvailable e m (say [BeginTransaction] w)))"
      and "state r \<noteq> Available"
  shows "r \<in> set (vbrowser (outcome_world (assignVM e m room u ticks w)))"
proof -
  let ?w1 = "spawnIfNoneAvailable e m (say [BeginTransaction] w)"
  let ?loop = "lease_loop (getPoolName m) room u ticks (vbrowser ?w1) ?w1"
  have frame: "vbrowser (loop_world ?loop) = vbrowser ?w1" by (rule lease_loop_frame)
  show ?thesis
  proof (cases ?loop)
    case (StillWaiting view w2)
    then show ?thesis unfolding assignVM_unfold [OF assms(1,2)]
      using frame assms(4) by (simp add: outcome_world_def loop_world_def)
  next
    case (RoomLeft w2)
    then show ?thesis unfolding assignVM_unfold [OF assms(1,2)]
      using frame assms(4) by (simp add: outcome_world_def loop_world_def say_fields)
  next
    case (Threw w2)
    then show ?thesis unfolding assignVM_unfold [OF assms(1,2)]
      using frame assms(4) by (simp add: outcome_world_def loop_world_def say_fields)
  next
    case (Selected vm t view w2)
    have "r \<in> set view" using Selected assms(3,4,5) by (rule lease_loop_keeps)
    then show ?thesis unfolding assignVM_unfold [OF assms(1,2)] Selected
      by (simp add: outcome_world_def say_def)
  qed
qed

text \<open>
  C4.  For every call of \<^verbatim>\<open>assignVM\<close> with a room id and a uid, however many passes of
  the loop it has made: the log of the call starts with \<^verbatim>\<open>BEGIN\<close>; if \<open>minSize\<close> is 0
  it goes on with the count of available rows, and if that count is zero with the
  provider call \<^verbatim>\<open>startVM\<close> of \<^verbatim>\<open>startVMWrapper\<close> and, when the provider answers, the
  insertion of the staging row; only then come the statements of the retry loop and of
  the end of the transaction.  There is no provider call anywhere else in the log, so
  no launch is issued when the count is not zero or \<open>minSize\<close> is not 0.  When the launch
  succeeds, on a table whose ids are a key below the next id of the sequence, the new
  staging row is in the table the call leaves.
\<close>

theorem assignVM_warm_on_demand:
  assumes "room \<noteq> []" and "u \<noteq> []"
  shows "(\<exists>rest. events (outcome_world (assignVM e m room u ticks w)) =
             events w @ Db BeginTransaction #
               (if minSize m = 0
                then Db CountAvailable #
                     (if getAvailableCount m (vbrowser w) = 0
                      then Api (StartVM (uuid e)) #
                           (case startVM e (uuid e) of None \<Rightarrow> [] | Some v \<Rightarrow> [Db InsertStaging])
                      else [])
                else []) @ map Db rest
            \<and> set rest \<subseteq> {SelectQueue room, UpdateLease, CommitTransaction,
                             RollbackTransaction, EndConnection})
         \<and> (\<forall>v. minSize m = 0 \<and> getAvailableCount m (vbrowser w) = 0
                 \<and> startVM e (uuid e) = Some v
                 \<and> distinct (map rid (vbrowser w)) \<and> (\<forall>r \<in> set (vbrowser w). rid r < next_id w)
               \<longrightarrow> state (fresh_row (next_id w) (getPoolName m) v (now e)) = Staging
                   \<and> fresh_row (next_id w) (getPoolName m) v (now e)
                       \<in> set (vbrowser (outcome_world (assignVM e m room u ticks w))))"
proof -
  let ?w0 = "say [BeginTransaction] w"
  let ?w1 = "spawnIfNoneAvailable e m ?w0"
  let ?loop = "lease_loop (getPoolName m) room u ticks (vbrowser ?w1) ?w1"
  let ?launch = "(if minSize m = 0
                then Db CountAvailable #
                     (if getAvailableCount m (vbrowser w) = 0
                      then Api (StartVM (uuid e)) #
                           (case startVM e (uuid e) of None \<Rightarrow> [] | Some v \<Rightarrow> [Db InsertStaging])
                      else [])
                else [])"
  obtain fin where fin: "events (outcome_world (assignVM e m room u ticks w)) =
                           events (loop_world ?loop) @ map Db fin"
      "set fin \<subseteq> {CommitTransaction, RollbackTransaction, EndConnection}"
    using assignVM_events [OF assms] by blast
  obtain ss where ss: "events (loop_world ?loop) = events ?w1 @ map Db ss"
      "set ss \<subseteq> {SelectQueue room, UpdateLease}"
    using lease_loop_events by blast
  have w1: "events ?w1 = events w @ Db BeginTransaction # ?launch"
    by (simp add: spawnIfNoneAvailable_world say_fields)
  have ev: "events (outcome_world (assignVM e m room u ticks w)) =
              events w @ Db BeginTransaction # ?launch @ map Db (ss @ fin)"
    unfolding fin(1) ss(1) w1 by simp
  have sub: "set (ss @ fin) \<subseteq> {SelectQueue room, UpdateLease, CommitTransaction,
                                 RollbackTransaction, EndConnection}"
    using fin(2) ss(2) by auto
  have first: "\<exists>rest. events (outcome_world (assignVM e m room u ticks w)) =
                  events w @ Db BeginTransaction # ?launch @ map Db rest
               \<and> set rest \<subseteq> {SelectQueue room, UpdateLease, CommitTransaction,
                                RollbackTransaction, EndConnection}"
    using ev sub by blast
  have second: "state (fresh_row (next_id w) (getPoolName m) v (now e)) = Staging
                \<and> fresh_row (next_id w) (getPoolName m) v (now e)
                     \<in> set (vbrowser (outcome_world (assignVM e m room u ticks w)))"
    if launch: "minSize m = 0 \<and> getAvailableCount m (vbrowser w) = 0
                \<and> startVM e (uuid e) = Some v
                \<and> distinct (map rid (vbrowser w)) \<and> (\<forall>r \<in> set (vbrowser w). rid r < next_id w)"
    for v
  proof -
    let ?new = "fresh_row (next_id w) (getPoolName m) v (now e)"
    have tbl: "vbrowser ?w1 = vbrowser w @ [?new]"
      using launch by (simp add: spawnIfNoneAvailable_world say_fields)
    have staging: "state ?new = Staging" by (simp add: fresh_row_def)
    have "rid ?new = next_id w" by (simp add: fresh_row_def)
    then have "rid ?new \<notin> rid ` set (vbrowser w)" using launch by auto
    then have d: "distinct (map rid (vbrowser ?w1))"
      unfolding tbl using launch by simp
    have mem: "?new \<in> set (vbrowser ?w1)" unfolding tbl by simp
    have "state ?new \<noteq> Available" using staging by simp
    from assignVM_keeps_staging [OF assms d mem this] staging show ?thesis by simp
  qed
  from first second show ?thesis by blast
qed

text \<open>An empty pool with \<open>minSize = 0\<close>, and a room that waits for two passes.\<close>

theorem assignVM_warm_on_demand_witness:
  "''roomB'' \<noteq> [] \<and> ''uidB'' \<noteq> []
   \<and> events (outcome_world
        (assignVM (demo_env offline ''production'' 1000) (demo_manager 100 0) ''roomB'' ''uidB''
           [Tick True 2000, Tick True 3000] (demo_world []))) =
       [Db BeginTransaction, Db CountAvailable, Api (StartVM ''pw-1''), Db InsertStaging,
        Db (SelectQueue ''roomB''), Db UpdateLease, Db (SelectQueue ''roomB''), Db UpdateLease]
   \<and> vbrowser (outcome_world
        (assignVM (demo_env offline ''production'' 1000) (demo_manager 100 0) ''roomB'' ''uidB''
           [Tick True 2000, Tick True 3000] (demo_world []))) =
       [fresh_row 100 ''HetznerUS'' ''vm-new'' 1000]"
proof -
  have r: "''roomB'' \<noteq> []" and u: "''uidB'' \<noteq> []" by simp_all
  have none: "getAssignedVM ''HetznerUS'' ''roomB'' ''uidB'' t [fresh_row 100 ''HetznerUS'' ''vm-new'' 1000]
                = (None, [fresh_row 100 ''HetznerUS'' ''vm-new'' 1000])" for t
    by (simp add: getAssignedVM_def first_by_id_def in_pool_def fresh_row_def)
  have run: "assignVM (demo_env offline ''production'' 1000) (demo_manager 100 0) ''roomB'' ''uidB''
               [Tick True 2000, Tick True 3000] (demo_world [])
             = Waiting
                 \<lparr>vbrowser = [fresh_row 100 ''HetznerUS'' ''vm-new'' 1000], next_id = 101,
                  redis = Some \<lparr>lists = (\<lambda>k. []),
                                 counters = (\<lambda>k. 0)(''vBrowserLaunches'' := 1)\<rparr>,
                  events = [Db BeginTransaction, Db CountAvailable, Api (StartVM ''pw-1''),
                    Db InsertStaging, Db (SelectQueue ''roomB''), Db UpdateLease,
                    Db (SelectQueue ''roomB''), Db UpdateLease]\<rparr>"
    unfolding assignVM_unfold [OF r u]
    by (simp add: spawnIfNoneAvailable_def startVMWrapper_def getAvailableCount_def
          demo_manager_def demo_env_def getPoolName_def say_def call_def redisCount_def
          demo_world_def none Let_def fun_eq_iff)
  from assignVM_warm_on_demand [OF r u, of "demo_env offline ''production'' 1000"
         "demo_manager 100 0" "[Tick True 2000, Tick True 3000]" "demo_world []"]
  show ?thesis
    using r u unfolding run by (simp add: outcome_world_def)
qed

section \<open>Reset: properties\<close>

lemma api_calls_simps:
  "api_calls [] = []"
  "api_calls (xs @ ys) = api_calls xs @ api_calls ys"
  "api_calls (Api c # xs) = c # api_calls xs"
  "api_calls (Db s # xs) = api_calls xs"
  "api_calls (map Db ss) = []"
  by (induction ss) (simp_all add: api_calls_def)

lemma terminateVMWrapper_calls:
  "api_calls (events (snd (terminateVMWrapper e m v w))) = api_calls (events w) @ [TerminateVM v]"
  by (simp add: terminateVMWrapper_def Let_def call_fields say_fields api_calls_simps)

lemma terminateVMWrapper_absent:
  assumes "\<forall>r \<in> set (vbrowser w). \<not> is_vm (getPoolName m) v r"
  shows "vbrowser (snd (terminateVMWrapper e m v w)) = vbrowser w"
proof -
  have "filter (\<lambda>r. \<not> (pool r = getPoolName m \<and> vmid r = v)) (vbrowser w) = vbrowser w"
    using assms by (simp add: is_vm_def)
  then show ?thesis
    by (simp add: terminateVMWrapper_def Let_def call_fields say_fields)
qed

text \<open>A reset that passes the uid check and whose reboot succeeds.\<close>

lemma resetVM_done:
  assumes "rebootVM e v"
      and "case caller of None \<Rightarrow> True | Some u \<Rightarrow> \<not> uid_mismatch (getPoolName m) v u (vbrowser w)"
  shows "fst (resetVM e m v caller w) = ResetDone"
    and "(\<exists>r \<in> set (vbrowser w). is_vm (getPoolName m) v r) \<Longrightarrow>
           vbrowser (snd (resetVM e m v caller w)) =
             map (\<lambda>r. if is_vm (getPoolName m) v r then reset_row (now e) r else r) (vbrowser w)
           \<and> api_calls (events (snd (resetVM e m v caller w))) = api_calls (events w) @ [RebootVM v]"
    and "(\<forall>r \<in> set (vbrowser w). \<not> is_vm (getPoolName m) v r) \<Longrightarrow>
           vbrowser (snd (resetVM e m v caller w)) = vbrowser w
           \<and> api_calls (events (snd (resetVM e m v caller w))) =
               api_calls (events w) @ [RebootVM v, TerminateVM v]"
    and "redis (snd (resetVM e m v caller w)) = redis w"
proof -
  let ?p = "getPoolName m"
  let ?w0 = "case caller of None \<Rightarrow> w | Some u \<Rightarrow> say [SelectUid] w"
  let ?w1 = "call (RebootVM v) ?w0"
  let ?w2 = "say [UpdateReset]
               (?w1\<lparr>vbrowser := map (\<lambda>r. if is_vm ?p v r then reset_row (now e) r else r) (vbrowser ?w1)\<rparr>)"
  have w0: "vbrowser ?w0 = vbrowser w" "api_calls (events ?w0) = api_calls (events w)"
           "redis ?w0 = redis w"
    by (simp_all add: say_fields api_calls_simps split: option.splits)
  have w2: "vbrowser ?w2 = map (\<lambda>r. if is_vm ?p v r then reset_row (now e) r else r) (vbrowser w)"
           "api_calls (events ?w2) = api_calls (events w) @ [RebootVM v]"
           "redis ?w2 = redis w"
    using w0 by (simp_all add: say_fields call_fields api_calls_simps)
  have no_mismatch: "\<not> (case caller of None \<Rightarrow> False | Some u \<Rightarrow> uid_mismatch ?p v u (vbrowser w))"
    using assms(2) by (simp split: option.splits)
  have unfold: "resetVM e m v caller w =
                  (if length (filter (is_vm ?p v) (vbrowser w)) = 0
                   then (ResetDone, snd (terminateVMWrapper e m v ?w2))
                   else (ResetDone, ?w2))"
    using assms(1) no_mismatch w0(1)
    by (simp add: resetVM_def Let_def call_fields)
  show "fst (resetVM e m v caller w) = ResetDone"
    unfolding unfold by simp
  show "redis (snd (resetVM e m v caller w)) = redis w"
    unfolding unfold using w2(3)
    by (simp add: terminateVMWrapper_def Let_def call_fields say_fields)
  {
    assume "\<exists>r \<in> set (vbrowser w). is_vm ?p v r"
    then have "filter (is_vm ?p v) (vbrowser w) \<noteq> []" by (simp add: filter_empty_conv)
    then have "resetVM e m v caller w = (ResetDone, ?w2)" unfolding unfold by simp
    then show "vbrowser (snd (resetVM e m v caller w)) =
             map (\<lambda>r. if is_vm ?p v r then reset_row (now e) r else r) (vbrowser w)
           \<and> api_calls (events (snd (resetVM e m v caller w))) = api_calls (events w) @ [RebootVM v]"
      using w2 by simp
  }
  {
    assume none: "\<forall>r \<in> set (vbrowser w). \<not> is_vm ?p v r"
    then have empty: "filter (is_vm ?p v) (vbrowser w) = []" by (simp add: filter_empty_conv)
    have same: "map (\<lambda>r. if is_vm ?p v r then reset_row (now e) r else r) (vbrowser w) = vbrowser w"
      using none by (simp add: map_idI)
    have res: "resetVM e m v caller w = (ResetDone, snd (terminateVMWrapper e m v ?w2))"
      unfolding unfold using empty by simp
    have "\<forall>r \<in> set (vbrowser ?w2). \<not> is_vm ?p v r" using none w2(1) same by simp
    then have "vbrowser (snd (terminateVMWrapper e m v ?w2)) = vbrowser ?w2"
      by (rule terminateVMWrapper_absent)
    then show "vbrowser (snd (resetVM e m v caller w)) = vbrowser w
           \<and> api_calls (events (snd (resetVM e m v caller w))) =
               api_calls (events w) @ [RebootVM v, TerminateVM v]"
      unfolding res using w2 same by (simp add: terminateVMWrapper_calls)
  }
qed

text \<open>
  C5.  For every VM id, when the reboot of \<^verbatim>\<open>resetVM\<close> succeeds and either no uid is
  supplied or the supplied uid is the lessee of the VM's record: \<^verbatim>\<open>resetVM\<close> completes;
  if the pool has a record of the VM, that record (and no other row) becomes a staging
  row with room id, uid, heartbeat time, ready time, assign time and data null, with
  \<open>retries = 0\<close> and with the reset time set to the time of the reset, and the only
  provider call is the reboot; if the pool has no record of the VM, the table is left as
  it is and the VM is terminated after the reboot.
\<close>

theorem resetVM_resets:
  assumes "rebootVM e v"
      and "caller = None
           \<or> (\<exists>u. caller = Some u
                 \<and> (\<forall>r \<in> set (vbrowser w). pool r = getPoolName m \<and> vmid r = v \<longrightarrow> uid r = Some u))"
  shows "fst (resetVM e m v caller w) = ResetDone
         \<and> (if \<exists>r \<in> set (vbrowser w). pool r = getPoolName m \<and> vmid r = v
            then vbrowser (snd (resetVM e m v caller w)) =
                   map (\<lambda>r. if pool r = getPoolName m \<and> vmid r = v
                            then r\<lparr>roomId := None, uid := None, retries := 0, heartbeatTime := None,
                                   resetTime := Some (now e), readyTime := None, assignTime := None,
                                   data := None, state := Staging\<rparr>
                            else r) (vbrowser w)
                 \<and> api_calls (events (snd (resetVM e m v caller w))) =
                     api_calls (events w) @ [RebootVM v]
            else vbrowser (snd (resetVM e m v caller w)) = vbrowser w
                 \<and> api_calls (events (snd (resetVM e m v caller w))) =
                     api_calls (events w) @ [RebootVM v, TerminateVM v])"
proof -
  let ?p = "getPoolName m"
  have check: "case caller of None \<Rightarrow> True | Some u \<Rightarrow> \<not> uid_mismatch ?p v u (vbrowser w)"
  proof (cases caller)
    case None
    then show ?thesis by simp
  next
    case (Some u)
    then have lessee: "\<forall>r \<in> set (vbrowser w). pool r = ?p \<and> vmid r = v \<longrightarrow> uid r = Some u"
      using assms(2) by simp
    have "\<not> uid_mismatch ?p v u (vbrowser w)"
    proof (cases "filter (is_vm ?p v) (vbrowser w)")
      case Nil
      then show ?thesis by (simp add: uid_mismatch_def)
    next
      case (Cons r rest)
      then have "r \<in> set (filter (is_vm ?p v) (vbrowser w))" by simp
      then have "uid r = Some u" using lessee by (simp add: is_vm_def)
      then show ?thesis using Cons by (simp add: uid_mismatch_def)
    qed
    then show ?thesis using Some by simp
  qed
  note reset = resetVM_done [OF assms(1) check]
  show ?thesis
  proof (cases "\<exists>r \<in> set (vbrowser w). pool r = ?p \<and> vmid r = v")
    case True
    then have "\<exists>r \<in> set (vbrowser w). is_vm ?p v r" by (simp add: is_vm_def)
    from reset(2) [OF this] reset(1) True show ?thesis
      by (simp add: is_vm_def reset_row_def)
  next
    case False
    then have "\<forall>r \<in> set (vbrowser w). \<not> is_vm ?p v r" by (simp add: is_vm_def)
    from reset(3) [OF this] reset(1) False show ?thesis by simp
  qed
qed

text \<open>The lessee resets the leased VM of \<open>used_table\<close>; and a VM without a record is
  rebooted and terminated.\<close>

theorem resetVM_resets_witness:
  "rebootVM (demo_env offline ''production'' 9000) ''vm3''
   \<and> (Some ''uidA'' = None
      \<or> (\<exists>u. Some ''uidA'' = Some u
            \<and> (\<forall>r \<in> set (vbrowser (demo_world used_table)).
                  pool r = getPoolName (demo_manager 100 1) \<and> vmid r = ''vm3'' \<longrightarrow> uid r = Some u)))
   \<and> vbrowser (snd (resetVM (demo_env offline ''production'' 9000) (demo_manager 100 1) ''vm3''
                      (Some ''uidA'') (demo_world used_table))) =
       [(demo_row 3 ''HetznerUS'' ''vm3'' Staging 0 None)\<lparr>resetTime := Some 9000\<rparr>,
        demo_row 4 ''HetznerUS'' ''vm4'' Available 0 (Some (demo_vm ''vm4''))]
   \<and> api_calls (events (snd (resetVM (demo_env offline ''production'' 9000) (demo_manager 100 1)
                      ''ghost'' None (demo_world used_table)))) = [RebootVM ''ghost'', TerminateVM ''ghost'']"
proof -
  let ?e = "demo_env offline ''production'' 9000"
  let ?m = "demo_manager 100 1"
  have p: "getPoolName (demo_manager l k) = ''HetznerUS''" for l k
    by (simp add: getPoolName_def demo_manager_def)
  have h1: "rebootVM ?e v" for v by (simp add: demo_env_def)
  have h2: "Some ''uidA'' = None
      \<or> (\<exists>u. Some ''uidA'' = Some u
            \<and> (\<forall>r \<in> set (vbrowser (demo_world used_table)).
                  pool r = getPoolName ?m \<and> vmid r = ''vm3'' \<longrightarrow> uid r = Some u))"
    by (simp add: p demo_world_fields used_table_def demo_row_def fresh_row_def)
  have h3: "(None :: string option) = None
      \<or> (\<exists>u. None = Some u
            \<and> (\<forall>r \<in> set (vbrowser (demo_world used_table)).
                  pool r = getPoolName ?m \<and> vmid r = ''ghost'' \<longrightarrow> uid r = Some u))"
    by simp
  have now: "now ?e = 9000" by (simp add: demo_env_def)
  let ?w = "demo_world used_table"
  have ex: "\<exists>r \<in> set (vbrowser ?w). pool r = getPoolName ?m \<and> vmid r = ''vm3''"
    by (simp add: p demo_world_fields used_table_def demo_row_def fresh_row_def)
  have nex: "\<not> (\<exists>r \<in> set (vbrowser ?w). pool r = getPoolName ?m \<and> vmid r = ''ghost'')"
    by (simp add: p demo_world_fields used_table_def demo_row_def fresh_row_def)
  from resetVM_resets [OF h1 h2]
  have "vbrowser (snd (resetVM ?e ?m ''vm3'' (Some ''uidA'') ?w)) =
          map (\<lambda>r. if pool r = getPoolName ?m \<and> vmid r = ''vm3''
                   then r\<lparr>roomId := None, uid := None, retries := 0, heartbeatTime := None,
                          resetTime := Some (now ?e), readyTime := None, assignTime := None,
                          data := None, state := Staging\<rparr>
                   else r) (vbrowser ?w)"
    unfolding if_P [OF ex] by blast
  then have table: "vbrowser (snd (resetVM ?e ?m ''vm3'' (Some ''uidA'') ?w)) =
       [(demo_row 3 ''HetznerUS'' ''vm3'' Staging 0 None)\<lparr>resetTime := Some 9000\<rparr>,
        demo_row 4 ''HetznerUS'' ''vm4'' Available 0 (Some (demo_vm ''vm4''))]"
    by (simp add: p now demo_world_fields used_table_def demo_row_def fresh_row_def)
  from resetVM_resets [OF h1 h3]
  have "api_calls (events (snd (resetVM ?e ?m ''ghost'' None ?w))) =
          api_calls (events ?w) @ [RebootVM ''ghost'', TerminateVM ''ghost'']"
    unfolding if_not_P [OF nex] by blast
  then have ghost: "api_calls (events (snd (resetVM ?e ?m ''ghost'' None ?w))) =
          [RebootVM ''ghost'', TerminateVM ''ghost'']"
    by (simp add: demo_world_fields api_calls_simps)
  from h1 [of "''vm3''"] h2 table ghost show ?thesis by blast
qed

section \<open>The staging check: properties\<close>

lemma filter_map_rid:
  assumes "\<And>x. rid (f x) = rid x"
  shows "filter (\<lambda>x. rid x = i) (map f tbl) = map f (filter (\<lambda>x. rid x = i) tbl)"
  by (induction tbl) (simp_all add: assms)

lemma only_row:
  assumes "filter (\<lambda>x. rid x = i) tbl = [r]" and "x \<in> set tbl" and "rid x = i"
  shows "x = r"
proof -
  have "x \<in> set (filter (\<lambda>x. rid x = i) tbl)" using assms(2,3) by simp
  then show ?thesis unfolding assms(1) by simp
qed

lemma resetVM_threw:
  "\<not> rebootVM e v \<Longrightarrow> resetVM e m v None w = (RebootThrew, call (RebootVM v) w)"
  by (simp add: resetVM_def Let_def)

text \<open>What the three metric calls of the give-up branch do to the metrics client, when
  there is one.\<close>

lemma give_up_metrics:
  "redis (redis_ltrim ''vBrowserStageFails'' 0 24
            (redis_lpush ''vBrowserStageFails'' (MStr v)
               (redisCount ''vBrowserStagingFails'' w))) =
     map_option
       (\<lambda>s. s\<lparr>counters := (counters s)(''vBrowserStagingFails'' := counters s ''vBrowserStagingFails'' + 1),
               lists := (lists s)(''vBrowserStageFails'' := take 25 (MStr v # lists s ''vBrowserStageFails''))\<rparr>)
       (redis w)"
  by (cases "redis w") (simp_all add: redis_ltrim_def redis_lpush_def redisCount_def)

lemma give_up_frame:
  "vbrowser (redis_ltrim k a b (redis_lpush k' x (redisCount k'' w))) = vbrowser w"
  "events (redis_ltrim k a b (redis_lpush k' x (redisCount k'' w))) = events w"
  by (simp_all add: redis_fields)

text \<open>The not-ready branch below the retry cap.\<close>

lemma notReady_below:
  assumes "rc < 240"
  shows "notReady e m v rc w =
           (Resolved v rc False, if rc mod 150 = 0 then call (PowerOn v) w else w)"
  using assms by (simp add: notReady_def)

text \<open>The not-ready branch at the retry cap, for a VM with a record in the pool.\<close>

lemma notReady_give_up:
  assumes "240 \<le> rc" and rec: "\<exists>x \<in> set (vbrowser w). is_vm (getPoolName m) v x"
  shows "redis (snd (notReady e m v rc w)) =
           redis (redis_ltrim ''vBrowserStageFails'' 0 24
                    (redis_lpush ''vBrowserStageFails'' (MStr v)
                       (redisCount ''vBrowserStagingFails'' w)))"
    and "api_calls (events (snd (notReady e m v rc w))) = api_calls (events w) @ [RebootVM v]"
    and "rebootVM e v \<Longrightarrow>
           fst (notReady e m v rc w) = Resolved v rc False
           \<and> vbrowser (snd (notReady e m v rc w)) =
               map (\<lambda>x. if is_vm (getPoolName m) v x then reset_row (now e) x else x) (vbrowser w)"
proof -
  let ?w1 = "redis_ltrim ''vBrowserStageFails'' 0 24
               (redis_lpush ''vBrowserStageFails'' (MStr v)
                  (redisCount ''vBrowserStagingFails'' w))"
  have unfold: "notReady e m v rc w =
                  (case resetVM e m v None ?w1 of
                     (RebootThrew, w2) \<Rightarrow> (Unsettled, w2)
                   | (_, w2) \<Rightarrow> (Resolved v rc False, w2))"
    using assms(1) by (simp add: notReady_def Let_def)
  have rec1: "\<exists>x \<in> set (vbrowser ?w1). is_vm (getPoolName m) v x"
    using rec by (simp add: give_up_frame)
  show "redis (snd (notReady e m v rc w)) = redis ?w1"
       "api_calls (events (snd (notReady e m v rc w))) = api_calls (events w) @ [RebootVM v]"
  proof -
    have "redis (snd (notReady e m v rc w)) = redis ?w1
          \<and> api_calls (events (snd (notReady e m v rc w))) = api_calls (events w) @ [RebootVM v]"
    proof (cases "rebootVM e v")
      case True
      have c: "case (None :: string option) of None \<Rightarrow> True
               | Some u \<Rightarrow> \<not> uid_mismatch (getPoolName m) v u (vbrowser ?w1)"
        by simp
      note reset = resetVM_done [OF True c]
      obtain w2 where w2: "resetVM e m v None ?w1 = (ResetDone, w2)"
        using reset(1) by (cases "resetVM e m v None ?w1") simp
      show ?thesis
        unfolding unfold w2 using reset(2) [OF rec1] reset(4) w2
        by (simp add: give_up_frame)
    next
      case False
      show ?thesis
        unfolding unfold resetVM_threw [OF False]
        by (simp add: call_fields give_up_frame api_calls_simps)
    qed
    then show "redis (snd (notReady e m v rc w)) = redis ?w1"
       "api_calls (events (snd (notReady e m v rc w))) = api_calls (events w) @ [RebootVM v]"
      by simp_all
  qed
  {
    assume ok: "rebootVM e v"
    have c: "case (None :: string option) of None \<Rightarrow> True
             | Some u \<Rightarrow> \<not> uid_mismatch (getPoolName m) v u (vbrowser ?w1)"
      by simp
    note reset = resetVM_done [OF ok c]
    obtain w2 where w2: "resetVM e m v None ?w1 = (ResetDone, w2)"
      using reset(1) by (cases "resetVM e m v None ?w1") simp
    show "fst (notReady e m v rc w) = Resolved v rc False
           \<and> vbrowser (snd (notReady e m v rc w)) =
               map (\<lambda>x. if is_vm (getPoolName m) v x then reset_row (now e) x else x) (vbrowser w)"
      unfolding unfold w2 using reset(2) [OF rec1] w2 by (simp add: give_up_frame)
  }
qed
text \<open>A row that is due, has or gets a descriptor with a host, and whose probe fails,
  reaches the not-ready branch with its retries counted and its descriptor saved.\<close>

lemma checkStagingRow_not_ready:
  assumes row: "filter (\<lambda>x. rid x = i) (vbrowser w) = [r]"
      and due: "minRetries m \<le> retries r + 1"
      and vm: "data r = Some d
               \<or> (data r = None
                  \<and> (retries r + 1 = minRetries m + 1 \<or> (retries r + 1) mod 20 = 0)
                  \<and> getVM e (vmid r) = GetVMOk (Some d))"
      and host: "host d \<noteq> []"
      and notready: "\<not> checkVMReady e (host d)"
  shows "\<exists>wx. checkStagingRow e m i w = notReady e m (vmid r) (retries r + 1) wx
           \<and> vbrowser wx =
               map (\<lambda>x. if rid x = i then x\<lparr>retries := retries x + 1, data := Some d\<rparr> else x) (vbrowser w)
           \<and> redis wx = redis w
           \<and> api_calls (events wx) =
               api_calls (events w) @ (if data r = None then [GetVM (vmid r)] else [])"
proof -
  let ?inc = "\<lambda>x. if rid x = i then x\<lparr>retries := retries x + 1\<rparr> else x"
  let ?w1 = "say [IncrementRetries] (w\<lparr>vbrowser := map ?inc (vbrowser w)\<rparr>)"
  let ?v = "vmid r" and ?rc = "retries r + 1"
  have "filter (\<lambda>x. rid x = i) (map ?inc (vbrowser w)) = map ?inc [r]"
    unfolding row [symmetric] by (rule filter_map_rid) simp
  moreover have "rid r = i"
  proof -
    have "r \<in> set (filter (\<lambda>x. rid x = i) (vbrowser w))" unfolding row by simp
    then show ?thesis by simp
  qed
  ultimately have first: "filter (\<lambda>x. rid x = i) (vbrowser ?w1) = [r\<lparr>retries := retries r + 1\<rparr>]"
    by (simp add: say_fields)
  have probe: "probeRow e m i ?v ?rc (Some d) wx = notReady e m ?v ?rc wx" for wx
    using host notready by (simp add: probeRow_def)
  from vm show ?thesis
  proof
    assume known: "data r = Some d"
    have res: "checkStagingRow e m i w = notReady e m ?v ?rc ?w1"
      using due known first probe [of ?w1]
      by (simp add: checkStagingRow_def Let_def)
    have same: "map ?inc (vbrowser w) =
                  map (\<lambda>x. if rid x = i then x\<lparr>retries := retries x + 1, data := Some d\<rparr> else x) (vbrowser w)"
    proof (rule map_cong [OF refl])
      fix x assume x: "x \<in> set (vbrowser w)"
      show "?inc x = (if rid x = i then x\<lparr>retries := retries x + 1, data := Some d\<rparr> else x)"
      proof (cases "rid x = i")
        case True
        then have "x = r" using only_row [OF row x] by simp
        then show ?thesis using known True by simp
      next
        case False
        then show ?thesis by simp
      qed
    qed
    have tbl: "vbrowser ?w1 =
                 map (\<lambda>x. if rid x = i then x\<lparr>retries := retries x + 1, data := Some d\<rparr> else x) (vbrowser w)"
      unfolding same [symmetric] by (simp add: say_fields)
    have red: "redis ?w1 = redis w" by (simp add: say_fields)
    have api: "api_calls (events ?w1) =
                 api_calls (events w) @ (if data r = None then [GetVM (vmid r)] else [])"
      using known by (simp add: say_fields api_calls_simps)
    from res tbl red api show ?thesis by blast
  next
    assume fetch: "data r = None
                  \<and> (retries r + 1 = minRetries m + 1 \<or> (retries r + 1) mod 20 = 0)
                  \<and> getVM e (vmid r) = GetVMOk (Some d)"
    let ?w2 = "call (GetVM ?v) ?w1"
    let ?w3 = "say [UpdateData]
                 (?w2\<lparr>vbrowser := map (\<lambda>x. if rid x = i then x\<lparr>data := Some d\<rparr> else x) (vbrowser ?w2)\<rparr>)"
    have res: "checkStagingRow e m i w = notReady e m ?v ?rc ?w3"
      using due fetch first host probe [of ?w3]
      by (simp add: checkStagingRow_def Let_def has_host_def)
    have tbl: "vbrowser ?w3 =
                 map (\<lambda>x. if rid x = i then x\<lparr>retries := retries x + 1, data := Some d\<rparr> else x) (vbrowser w)"
    proof -
      have "vbrowser ?w3 =
              map (\<lambda>x. if rid x = i then x\<lparr>data := Some d\<rparr> else x) (map ?inc (vbrowser w))"
        by (simp add: say_fields call_fields)
      also have "\<dots> = map (\<lambda>x. if rid x = i then x\<lparr>retries := retries x + 1, data := Some d\<rparr> else x)
                          (vbrowser w)"
        unfolding map_map by (rule map_cong [OF refl]) simp
      finally show ?thesis .
    qed
    have red: "redis ?w3 = redis w" by (simp add: say_fields call_fields)
    have api: "api_calls (events ?w3) =
                 api_calls (events w) @ (if data r = None then [GetVM (vmid r)] else [])"
      using fetch by (simp add: say_fields call_fields api_calls_simps)
    from res tbl red api show ?thesis by blast
  qed
qed
text \<open>
  C8.  For every row that the staging check processes by its id, that belongs to the
  pool, is due for probing, has a descriptor with a host (cached, or fetched in this
  pass), and whose probe reports not ready, with \<open>n\<close> the retries count after the
  increment:

  if \<open>n \<ge> 240\<close>, the failure counter \<open>vBrowserStagingFails\<close> is counted and the VM id
  is pushed on the list \<open>vBrowserStageFails\<close> (kept at 25 entries) on the metrics
  client when there is one, and \<^verbatim>\<open>resetVM\<close> is called on the VM id, which reboots the
  VM; when that reboot succeeds the promise resolves not ready and the row is a fresh
  staging row: \<open>retries = 0\<close>, no lessee, no data, no heartbeat, ready or assign time,
  and the reset time set;

  if \<open>n < 240\<close>, the promise resolves not ready, the metrics are untouched, the row has
  its retries counted (and its descriptor saved), and the only provider calls are the
  fetch of the descriptor, when it was not cached, and \<^verbatim>\<open>powerOn\<close> when \<open>n mod 150 = 0\<close>:
  no reset is issued.
\<close>

theorem checkStaging_give_up:
  assumes row: "filter (\<lambda>x. rid x = i) (vbrowser w) = [r]"
      and pool: "pool r = getPoolName m"
      and due: "minRetries m \<le> retries r + 1"
      and vm: "data r = Some d
               \<or> (data r = None
                  \<and> (retries r + 1 = minRetries m + 1 \<or> (retries r + 1) mod 20 = 0)
                  \<and> getVM e (vmid r) = GetVMOk (Some d))"
      and host: "host d \<noteq> []"
      and notready: "\<not> checkVMReady e (host d)"
  shows "(240 \<le> retries r + 1 \<longrightarrow>
            redis (snd (checkStagingRow e m i w)) =
              map_option
                (\<lambda>s. s\<lparr>counters := (counters s)(''vBrowserStagingFails'' :=
                                       counters s ''vBrowserStagingFails'' + 1),
                        lists := (lists s)(''vBrowserStageFails'' :=
                                       take 25 (MStr (vmid r) # lists s ''vBrowserStageFails''))\<rparr>)
                (redis w)
            \<and> api_calls (events (snd (checkStagingRow e m i w))) =
                api_calls (events w) @ (if data r = None then [GetVM (vmid r)] else [])
                  @ [RebootVM (vmid r)]
            \<and> (rebootVM e (vmid r) \<longrightarrow>
                 fst (checkStagingRow e m i w) = Resolved (vmid r) (retries r + 1) False
                 \<and> filter (\<lambda>x. rid x = i) (vbrowser (snd (checkStagingRow e m i w))) =
                     [r\<lparr>roomId := None, uid := None, retries := 0, heartbeatTime := None,
                        resetTime := Some (now e), readyTime := None, assignTime := None,
                        data := None, state := Staging\<rparr>]))
         \<and> (retries r + 1 < 240 \<longrightarrow>
            fst (checkStagingRow e m i w) = Resolved (vmid r) (retries r + 1) False
            \<and> redis (snd (checkStagingRow e m i w)) = redis w
            \<and> api_calls (events (snd (checkStagingRow e m i w))) =
                api_calls (events w) @ (if data r = None then [GetVM (vmid r)] else [])
                  @ (if (retries r + 1) mod 150 = 0 then [PowerOn (vmid r)] else [])
            \<and> vbrowser (snd (checkStagingRow e m i w)) =
                map (\<lambda>x. if rid x = i then x\<lparr>retries := retries x + 1, data := Some d\<rparr> else x)
                  (vbrowser w))"
proof -
  let ?v = "vmid r" and ?rc = "retries r + 1" and ?p = "getPoolName m"
  let ?both = "\<lambda>x. if rid x = i then x\<lparr>retries := retries x + 1, data := Some d\<rparr> else x"
  obtain wx where wx: "checkStagingRow e m i w = notReady e m ?v ?rc wx"
      "vbrowser wx = map ?both (vbrowser w)" "redis wx = redis w"
      "api_calls (events wx) = api_calls (events w) @ (if data r = None then [GetVM ?v] else [])"
    using checkStagingRow_not_ready [OF row due vm host notready] by blast
  have r_in: "r \<in> set (vbrowser w)" and r_id: "rid r = i"
  proof -
    have "r \<in> set (filter (\<lambda>x. rid x = i) (vbrowser w))" unfolding row by simp
    then show "r \<in> set (vbrowser w)" and "rid r = i" by simp_all
  qed
  have give_up: "redis (snd (checkStagingRow e m i w)) =
              map_option
                (\<lambda>s. s\<lparr>counters := (counters s)(''vBrowserStagingFails'' :=
                                       counters s ''vBrowserStagingFails'' + 1),
                        lists := (lists s)(''vBrowserStageFails'' :=
                                       take 25 (MStr ?v # lists s ''vBrowserStageFails''))\<rparr>)
                (redis w)
            \<and> api_calls (events (snd (checkStagingRow e m i w))) =
                api_calls (events w) @ (if data r = None then [GetVM ?v] else []) @ [RebootVM ?v]
            \<and> (rebootVM e ?v \<longrightarrow>
                 fst (checkStagingRow e m i w) = Resolved ?v ?rc False
                 \<and> filter (\<lambda>x. rid x = i) (vbrowser (snd (checkStagingRow e m i w))) =
                     [r\<lparr>roomId := None, uid := None, retries := 0, heartbeatTime := None,
                        resetTime := Some (now e), readyTime := None, assignTime := None,
                        data := None, state := Staging\<rparr>])"
    if cap: "240 \<le> ?rc"
  proof -
    have "?both r \<in> set (vbrowser wx)" unfolding wx(2) using r_in by simp
    moreover have "is_vm ?p ?v (?both r)" using pool r_id by (simp add: is_vm_def)
    ultimately have rec: "\<exists>x \<in> set (vbrowser wx). is_vm ?p ?v x" by blast
    note nr = notReady_give_up [OF cap rec, of e]
    have metrics: "redis (snd (checkStagingRow e m i w)) =
              map_option
                (\<lambda>s. s\<lparr>counters := (counters s)(''vBrowserStagingFails'' :=
                                       counters s ''vBrowserStagingFails'' + 1),
                        lists := (lists s)(''vBrowserStageFails'' :=
                                       take 25 (MStr ?v # lists s ''vBrowserStageFails''))\<rparr>)
                (redis w)"
      unfolding wx(1) nr(1) give_up_metrics wx(3) ..
    have api: "api_calls (events (snd (checkStagingRow e m i w))) =
                api_calls (events w) @ (if data r = None then [GetVM ?v] else []) @ [RebootVM ?v]"
      unfolding wx(1) nr(2) wx(4) by simp
    have fresh: "fst (checkStagingRow e m i w) = Resolved ?v ?rc False
                 \<and> filter (\<lambda>x. rid x = i) (vbrowser (snd (checkStagingRow e m i w))) =
                     [r\<lparr>roomId := None, uid := None, retries := 0, heartbeatTime := None,
                        resetTime := Some (now e), readyTime := None, assignTime := None,
                        data := None, state := Staging\<rparr>]"
      if ok: "rebootVM e ?v"
    proof -
      let ?reset = "\<lambda>x. if is_vm ?p ?v x then reset_row (now e) x else x"
      from nr(3) [OF ok] have res: "fst (notReady e m ?v ?rc wx) = Resolved ?v ?rc False"
        and tbl: "vbrowser (snd (notReady e m ?v ?rc wx)) = map ?reset (map ?both (vbrowser w))"
        unfolding wx(2) by simp_all
      have "filter (\<lambda>x. rid x = i) (map ?reset (map ?both (vbrowser w))) =
              map ?reset (filter (\<lambda>x. rid x = i) (map ?both (vbrowser w)))"
        by (rule filter_map_rid) (simp add: reset_row_def)
      also have "filter (\<lambda>x. rid x = i) (map ?both (vbrowser w)) =
                   map ?both (filter (\<lambda>x. rid x = i) (vbrowser w))"
        by (rule filter_map_rid) simp
      finally have "filter (\<lambda>x. rid x = i) (map ?reset (map ?both (vbrowser w))) =
                      [?reset (?both r)]"
        unfolding row by simp
      also have "?reset (?both r) =
                   r\<lparr>roomId := None, uid := None, retries := 0, heartbeatTime := None,
                     resetTime := Some (now e), readyTime := None, assignTime := None,
                     data := None, state := Staging\<rparr>"
        using pool r_id by (simp add: is_vm_def reset_row_def)
      finally show ?thesis unfolding wx(1) tbl using res by simp
    qed
    from metrics api fresh show ?thesis by blast
  qed
  have below: "fst (checkStagingRow e m i w) = Resolved ?v ?rc False
            \<and> redis (snd (checkStagingRow e m i w)) = redis w
            \<and> api_calls (events (snd (checkStagingRow e m i w))) =
                api_calls (events w) @ (if data r = None then [GetVM ?v] else [])
                  @ (if ?rc mod 150 = 0 then [PowerOn ?v] else [])
            \<and> vbrowser (snd (checkStagingRow e m i w)) = map ?both (vbrowser w)"
    if low: "?rc < 240"
    unfolding wx(1) notReady_below [OF low]
    using wx(2,3,4) by (simp add: call_fields api_calls_simps)
  from give_up below show ?thesis by blast
qed
text \<open>The probe of \<open>vm8\<close> fails.  At 239 retries so far the pass gives up and resets the
  row; at 149 retries so far it powers the VM on and resets nothing.\<close>

theorem checkStaging_give_up_witness:
  "filter (\<lambda>x. rid x = 8) (vbrowser (demo_world [staging_row 239])) = [staging_row 239]
   \<and> pool (staging_row 239) = getPoolName (demo_manager 100 1)
   \<and> minRetries (demo_manager 100 1) \<le> retries (staging_row 239) + 1
   \<and> data (staging_row 239) = Some (demo_vm ''vm8'')
   \<and> host (demo_vm ''vm8'') \<noteq> []
   \<and> \<not> checkVMReady (demo_env offline ''production'' 5000) (host (demo_vm ''vm8''))
   \<and> fst (checkStagingRow (demo_env offline ''production'' 5000) (demo_manager 100 1) 8
             (demo_world [staging_row 239])) = Resolved ''vm8'' 240 False
   \<and> vbrowser (snd (checkStagingRow (demo_env offline ''production'' 5000) (demo_manager 100 1) 8
             (demo_world [staging_row 239]))) =
       [(demo_row 8 ''HetznerUS'' ''vm8'' Staging 0 None)\<lparr>resetTime := Some 5000\<rparr>]
   \<and> api_calls (events (snd (checkStagingRow (demo_env offline ''production'' 5000)
             (demo_manager 100 1) 8 (demo_world [staging_row 239])))) = [RebootVM ''vm8'']
   \<and> api_calls (events (snd (checkStagingRow (demo_env offline ''production'' 5000)
             (demo_manager 100 1) 8 (demo_world [staging_row 149])))) = [PowerOn ''vm8'']
   \<and> vbrowser (snd (checkStagingRow (demo_env offline ''production'' 5000) (demo_manager 100 1) 8
             (demo_world [staging_row 149]))) = [staging_row 150]"
proof -
  let ?e = "demo_env offline ''production'' 5000"
  let ?m = "demo_manager 100 1"
  have h1: "filter (\<lambda>x. rid x = 8) (vbrowser (demo_world [staging_row n])) = [staging_row n]" for n
    by (simp add: demo_world_fields staging_row_def demo_row_def fresh_row_def)
  have h2: "pool (staging_row n) = getPoolName ?m" for n
    by (simp add: staging_row_def demo_row_def fresh_row_def getPoolName_def demo_manager_def)
  have h3: "minRetries ?m \<le> retries (staging_row 239) + 1"
           "minRetries ?m \<le> retries (staging_row 149) + 1"
    by (simp_all add: staging_row_def demo_row_def fresh_row_def demo_manager_def)
  have h4: "data (staging_row n) = Some (demo_vm ''vm8'')
            \<or> (data (staging_row n) = None
               \<and> (retries (staging_row n) + 1 = minRetries ?m + 1
                   \<or> (retries (staging_row n) + 1) mod 20 = 0)
               \<and> getVM ?e (vmid (staging_row n)) = GetVMOk (Some (demo_vm ''vm8'')))" for n
    by (simp add: staging_row_def demo_row_def fresh_row_def)
  have h5: "host (demo_vm ''vm8'') \<noteq> []" by (simp add: demo_vm_def)
  have h6: "\<not> checkVMReady ?e (host (demo_vm ''vm8''))"
    by (simp add: checkVMReady_def demo_env_def offline_def)
  have facts: "vmid (staging_row n) = ''vm8''" "retries (staging_row n) = n"
      "rebootVM ?e ''vm8''" "now ?e = 5000" "redis (demo_world t) \<noteq> None"
      "events (demo_world t) = []" "vbrowser (demo_world t) = t" for n t
    by (simp_all add: staging_row_def demo_row_def fresh_row_def demo_env_def demo_world_def)
  from checkStaging_give_up [OF h1 h2 h3(1) h4 h5 h6]
  have high: "fst (checkStagingRow ?e ?m 8 (demo_world [staging_row 239])) = Resolved ''vm8'' 240 False"
      "filter (\<lambda>x. rid x = 8) (vbrowser (snd (checkStagingRow ?e ?m 8 (demo_world [staging_row 239])))) =
         [(demo_row 8 ''HetznerUS'' ''vm8'' Staging 0 None)\<lparr>resetTime := Some 5000\<rparr>]"
      "api_calls (events (snd (checkStagingRow ?e ?m 8 (demo_world [staging_row 239])))) = [RebootVM ''vm8'']"
    by (simp_all add: facts api_calls_simps staging_row_def demo_row_def fresh_row_def)
  from checkStaging_give_up [OF h1 h2 h3(2) h4 h5 h6]
  have low: "api_calls (events (snd (checkStagingRow ?e ?m 8 (demo_world [staging_row 149])))) = [PowerOn ''vm8'']"
      "vbrowser (snd (checkStagingRow ?e ?m 8 (demo_world [staging_row 149]))) = [staging_row 150]"
    by (simp_all add: facts api_calls_simps staging_row_def demo_row_def fresh_row_def)
  have whole: "vbrowser (snd (checkStagingRow ?e ?m 8 (demo_world [staging_row 239]))) =
                 [(demo_row 8 ''HetznerUS'' ''vm8'' Staging 0 None)\<lparr>resetTime := Some 5000\<rparr>]"
  proof -
    have "length (vbrowser (snd (checkStagingRow ?e ?m 8 (demo_world [staging_row 239])))) = 1"
      by (simp add: checkStagingRow_def probeRow_def notReady_def resetVM_def Let_def h6
            staging_row_def demo_row_def fresh_row_def demo_env_def demo_world_def say_def
            call_def redis_lpush_def redis_ltrim_def redisCount_def is_vm_def getPoolName_def
            demo_manager_def demo_vm_def)
    then obtain x where x: "vbrowser (snd (checkStagingRow ?e ?m 8 (demo_world [staging_row 239]))) = [x]"
      by (cases "vbrowser (snd (checkStagingRow ?e ?m 8 (demo_world [staging_row 239])))") simp_all
    from high(2) show ?thesis unfolding x by (simp split: if_splits)
  qed
  from h1 [of 239] h2 [of 239] h3(1) h5 h6 high(1) whole high(3) low show ?thesis
    by (simp add: staging_row_def demo_row_def fresh_row_def)
qed

section \<open>The shrink loop: properties\<close>

lemma filter_key_of_member:
  assumes "distinct (map g xs)" and "c \<in> set xs"
  shows "filter (\<lambda>x. g x = g c) xs = [c]" and "filter (\<lambda>x. g x \<noteq> g c) xs = remove1 c xs"
proof -
  have d: "distinct xs" using assms(1) by (simp add: distinct_map)
  have inj: "inj_on g (set xs)" using assms(1) by (simp add: distinct_map)
  have same: "(g x = g c) = (x = c)" if "x \<in> set xs" for x
    using inj that assms(2) by (auto dest: inj_onD)
  have "filter (\<lambda>x. g x = g c) xs = filter (\<lambda>x. x = c) xs"
    by (rule filter_cong [OF refl]) (rule same)
  then show "filter (\<lambda>x. g x = g c) xs = [c]"
    using filter_eq_single [OF d assms(2)] by simp
  have "filter (\<lambda>x. g x \<noteq> g c) xs = filter (\<lambda>x. c \<noteq> x) xs"
    by (rule filter_cong [OF refl]) (use same in auto)
  also have "\<dots> = removeAll c xs" by (simp add: removeAll_filter_not_eq)
  also have "\<dots> = remove1 c xs" using d by (simp add: distinct_remove1_removeAll)
  finally show "filter (\<lambda>x. g x \<noteq> g c) xs = remove1 c xs" .
qed

lemma length_filter_implies:
  assumes "\<And>x. x \<in> set xs \<Longrightarrow> P x \<Longrightarrow> Q x"
  shows "length (filter P xs) \<le> length (filter Q xs)"
  using assms by (induction xs) auto

lemma length_filter_remove1:
  assumes "c \<in> set xs" and "Q c"
  shows "length (filter Q (remove1 c xs)) = length (filter Q xs) - 1"
proof -
  have "c \<in> set (filter Q xs)" using assms by simp
  then show ?thesis using assms(2) by (simp add: filter_remove1 length_remove1)
qed

text \<open>Where the cast is in range, the condition of the statement does not raise and is
  the plain condition on the uptime within the hour.\<close>

lemma eligible_in_range:
  assumes "pg_cast_int (of_int (t - creationTime r) / 1000) \<noteq> None"
  shows "eligible cfg p t r = Some (old_enough cfg p t r)"
proof -
  from assms have "pg_cast_int (of_int (t - creationTime r) / 1000)
                     = Some (pg_round (of_int (t - creationTime r) / 1000))"
    by (simp add: pg_cast_int_def Let_def split: if_splits)
  then have "uptime_frac t r = Some (uptime_mod_hour t r)"
    by (simp add: uptime_frac_def uptime_mod_hour_def)
  then show ?thesis by (auto simp: eligible_def old_enough_def)
qed

text \<open>An age of at most \<open>2^31 - 1\<close> seconds, either way, is in range.\<close>

lemma pg_cast_int_in_range:
  assumes "\<bar>k\<bar> \<le> 2147483647000"
  shows "pg_cast_int (of_int k / 1000) \<noteq> None"
proof -
  let ?q = "of_int k / 1000 :: real"
  have bounds: "- 2147483648 \<le> pg_round ?q \<and> pg_round ?q \<le> 2147483647"
  proof (cases "?q < 0")
    case True
    have "- ?q + 1 / 2 < 2147483648" using assms by simp
    then have "\<lfloor>- ?q + 1 / 2\<rfloor> < 2147483648" by (simp add: floor_less_iff)
    moreover have "0 \<le> - ?q + 1 / 2" using True by simp
    then have "0 \<le> \<lfloor>- ?q + 1 / 2\<rfloor>" by (simp add: le_floor_iff)
    ultimately show ?thesis using True unfolding pg_round_def by (simp only: if_True) linarith
  next
    case False
    have "?q + 1 / 2 < 2147483648" using assms by simp
    then have "\<lfloor>?q + 1 / 2\<rfloor> < 2147483648" by (simp add: floor_less_iff)
    moreover have "0 \<le> ?q + 1 / 2" using False by simp
    then have "0 \<le> \<lfloor>?q + 1 / 2\<rfloor>" by (simp add: le_floor_iff)
    ultimately show ?thesis using False unfolding pg_round_def by (simp only: if_False) linarith
  qed
  then show ?thesis by (simp add: pg_cast_int_def Let_def)
qed

lemma snd_terminate_case:
  "snd (case x of (True, w3) \<Rightarrow> (a, w3) | (False, w3) \<Rightarrow> (b, w3)) = snd x"
  by (cases x; cases "fst x") auto

text \<open>The table after one tick, in terms of the row the statement selects.\<close>

lemma resizeVMGroupDecr_table:
  assumes ids: "distinct (map rid (vbrowser w))"
      and vms: "distinct (map (\<lambda>r. (pool r, vmid r)) (vbrowser w))"
      and range: "\<forall>r \<in> set (vbrowser w).
                    pg_cast_int (of_int (now e - creationTime r) / 1000) \<noteq> None"
  shows "vbrowser (snd (resizeVMGroupDecr e cfg m w)) =
           (if int (getAvailableCount m (vbrowser w))
                 > snd (getAdjustedBuffer (toNumber e) cfg m (getUTCHours (now e)))
               \<and> minSize m < length (filter (old_enough cfg (getPoolName m) (now e)) (vbrowser w))
            then remove1 (sort_key rid (filter (old_enough cfg (getPoolName m) (now e)) (vbrowser w))
                            ! minSize m) (vbrowser w)
            else vbrowser w)"
proof -
  let ?tbl = "vbrowser w" and ?p = "getPoolName m"
  let ?el = "old_enough cfg ?p (now e)"
  let ?cands = "sort_key rid (filter ?el ?tbl)"
  let ?over = "int (getAvailableCount m ?tbl)
                 > snd (getAdjustedBuffer (toNumber e) cfg m (getUTCHours (now e)))"
  have el: "eligible cfg ?p (now e) r = Some (?el r)" if "r \<in> set ?tbl" for r
    using range that by (simp add: eligible_in_range)
  have quiet: "\<not> list_ex (\<lambda>r. eligible cfg ?p (now e) r = None) ?tbl"
    using el by (simp add: list_ex_iff)
  have filt: "filter (\<lambda>r. eligible cfg ?p (now e) r = Some True) ?tbl = filter ?el ?tbl"
    by (rule filter_cong [OF refl]) (simp add: el)
  then have pick: "first_by_id n (\<lambda>r. eligible cfg ?p (now e) r = Some True) ?tbl
                     = first_by_id n ?el ?tbl" for n
    by (simp add: first_by_id_def)
  show ?thesis
  proof (cases "?over \<and> minSize m < length (filter ?el ?tbl)")
    case False
    then show ?thesis
      using quiet
      by (auto simp: resizeVMGroupDecr_def Let_def say_fields first_by_id_eq filt)
  next
    case True
    let ?c = "?cands ! minSize m"
    let ?w2 = "say [DeleteOldestEligible] (say [CountAvailable] w)"
    have "minSize m < length ?cands" using True by simp
    then have "?c \<in> set ?cands" by (rule nth_mem)
    then have "?c \<in> {x \<in> set ?tbl. ?el x}"
      unfolding set_sort set_filter .
    then have c_in: "?c \<in> set ?tbl" and c_el: "?el ?c" by blast+
    have chosen: "first_by_id (minSize m) ?el ?tbl = Some (rid ?c)"
      using True by (simp add: first_by_id_eq)
    note key = filter_key_of_member [OF ids c_in]
    have gone: "\<forall>x \<in> set (remove1 ?c ?tbl). \<not> is_vm ?p (vmid ?c) x"
    proof
      fix x assume x: "x \<in> set (remove1 ?c ?tbl)"
      have d: "distinct ?tbl" using ids by (simp add: distinct_map)
      have "x \<in> set ?tbl" and "x \<noteq> ?c" using x d by auto
      moreover have "inj_on (\<lambda>r. (pool r, vmid r)) (set ?tbl)"
        using vms by (simp add: distinct_map)
      ultimately have "(pool x, vmid x) \<noteq> (pool ?c, vmid ?c)"
        using c_in by (auto dest: inj_onD)
      then show "\<not> is_vm ?p (vmid ?c) x"
        using c_el by (auto simp: is_vm_def old_enough_def)
    qed
    have "vbrowser (snd (terminateVMWrapper e m (vmid ?c) (?w2\<lparr>vbrowser := remove1 ?c ?tbl\<rparr>)))
            = remove1 ?c ?tbl"
      using terminateVMWrapper_absent [of "?w2\<lparr>vbrowser := remove1 ?c ?tbl\<rparr>" m "vmid ?c" e] gone
      by simp
    moreover have "snd (resizeVMGroupDecr e cfg m w) =
                     snd (terminateVMWrapper e m (vmid ?c) (?w2\<lparr>vbrowser := remove1 ?c ?tbl\<rparr>))"
      using True chosen key quiet
      by (simp add: resizeVMGroupDecr_def Let_def say_fields pick snd_terminate_case)
    ultimately show ?thesis using True by simp
  qed
qed

text \<open>When the count exceeds the high watermark and the cast is out of range on an
  available row of the pool, the statement raises and the table is left as it is.\<close>

lemma resizeVMGroupDecr_raises:
  assumes "int (getAvailableCount m (vbrowser w))
             > snd (getAdjustedBuffer (toNumber e) cfg m (getUTCHours (now e)))"
      and "r \<in> set (vbrowser w)" and "pool r = getPoolName m" and "state r = Available"
      and "pg_cast_int (of_int (now e - creationTime r) / 1000) = None"
  shows "resizeVMGroupDecr e cfg m w
           = (IntegerOutOfRange, say [CountAvailable, DeleteOldestEligible] w)"
proof -
  have "eligible cfg (getPoolName m) (now e) r = None"
    using assms(3,4,5) by (simp add: eligible_def uptime_frac_def)
  then have "list_ex (\<lambda>r. eligible cfg (getPoolName m) (now e) r = None) (vbrowser w)"
    using assms(2) by (auto simp: list_ex_iff)
  then show ?thesis
    using assms(1) by (simp add: resizeVMGroupDecr_def Let_def say_fields say_say)
qed
lemma old_enough_expand:
  "old_enough cfg p t =
     (\<lambda>r. pool r = p \<and> state r = Available
           \<and> uptime_mod_hour t r > VM_MIN_UPTIME_MINUTES cfg * 60)"
  by (simp add: old_enough_def fun_eq_iff)

text \<open>
  C3, amended.  For every pool whose table has the ids as a key and at most one row per
  (pool, VM id), and in which the age of every row in whole seconds fits a 32-bit
  integer, so that the cast of the statement does not raise: one tick of the shrink
  loop deletes at most one row.  It deletes a row only when the count of available
  rows exceeds the high watermark, and then the row is found by taking the available
  rows of the pool whose uptime, in seconds modulo 3600, exceeds
  \<open>VM_MIN_UPTIME_MINUTES * 60\<close>, ordering these by id ascending and skipping the first
  \<open>minSize\<close> of them: the uptime filter comes before the skip, not after it.
  Consequently a tick never takes the count of available rows below \<open>minSize\<close>.
\<close>

theorem shrink_deletes_oldest_eligible:
  assumes ids: "distinct (map rid (vbrowser w))"
      and vms: "distinct (map (\<lambda>r. (pool r, vmid r)) (vbrowser w))"
      and range: "\<forall>r \<in> set (vbrowser w).
                    pg_cast_int (of_int (now e - creationTime r) / 1000) \<noteq> None"
  shows "vbrowser (snd (resizeVMGroupDecr e cfg m w)) =
           (if int (getAvailableCount m (vbrowser w))
                 > snd (getAdjustedBuffer (toNumber e) cfg m (getUTCHours (now e)))
               \<and> minSize m <
                   length (filter (\<lambda>r. pool r = getPoolName m \<and> state r = Available
                                       \<and> uptime_mod_hour (now e) r > VM_MIN_UPTIME_MINUTES cfg * 60)
                             (vbrowser w))
            then remove1
                   (sort_key rid
                      (filter (\<lambda>r. pool r = getPoolName m \<and> state r = Available
                                    \<and> uptime_mod_hour (now e) r > VM_MIN_UPTIME_MINUTES cfg * 60)
                         (vbrowser w)) ! minSize m)
                   (vbrowser w)
            else vbrowser w)
         \<and> min (minSize m) (getAvailableCount m (vbrowser w))
             \<le> getAvailableCount m (vbrowser (snd (resizeVMGroupDecr e cfg m w)))"
proof -
  let ?tbl = "vbrowser w" and ?p = "getPoolName m"
  let ?el = "old_enough cfg ?p (now e)"
  let ?cands = "sort_key rid (filter ?el ?tbl)"
  let ?del = "int (getAvailableCount m ?tbl)
                 > snd (getAdjustedBuffer (toNumber e) cfg m (getUTCHours (now e)))
              \<and> minSize m < length (filter ?el ?tbl)"
  note table = resizeVMGroupDecr_table [OF ids vms range, of cfg m]
  have count: "min (minSize m) (getAvailableCount m ?tbl)
                 \<le> getAvailableCount m (vbrowser (snd (resizeVMGroupDecr e cfg m w)))"
  proof (cases ?del)
    case False
    show ?thesis unfolding table if_not_P [OF False] by simp
  next
    case True
    let ?c = "?cands ! minSize m"
    have "minSize m < length ?cands" using True by simp
    then have "?c \<in> set ?cands" by (rule nth_mem)
    then have "?c \<in> {x \<in> set ?tbl. ?el x}" unfolding set_sort set_filter .
    then have c_in: "?c \<in> set ?tbl" and c_el: "?el ?c" by blast+
    have c_av: "in_pool ?p Available ?c" using c_el by (simp add: old_enough_def in_pool_def)
    have "length (filter ?el ?tbl) \<le> length (filter (in_pool ?p Available) ?tbl)"
      by (rule length_filter_implies) (simp add: old_enough_def in_pool_def)
    then have more: "minSize m < getAvailableCount m ?tbl"
      using True by (simp add: getAvailableCount_def)
    have "getAvailableCount m (remove1 ?c ?tbl) = getAvailableCount m ?tbl - 1"
      unfolding getAvailableCount_def using c_in c_av by (rule length_filter_remove1)
    then show ?thesis unfolding table if_P [OF True] using more by simp
  qed
  from table count show ?thesis unfolding old_enough_expand by (rule conjI)
qed

lemma shrink_eval:
  "pg_round 5100 = 5100"
  "pg_round 10700 = 10700"
  "pg_round 10600 = 10600"
  "getUTCHours 10700000 = 2"
  by (simp_all add: pg_round_def getUTCHours_def)

lemma demo_row_fields:
  "rid (demo_row i p v st c d) = i" "pool (demo_row i p v st c d) = p"
  "vmid (demo_row i p v st c d) = v" "state (demo_row i p v st c d) = st"
  "creationTime (demo_row i p v st c d) = c" "data (demo_row i p v st c d) = d"
  by (simp_all add: demo_row_def fresh_row_def)

lemma shrink_table_eval:
  "uptime_mod_hour 10700000 (demo_row 1 ''HetznerUS'' ''vm1'' Available 5600000 d1) = 1500"
  "uptime_mod_hour 10700000 (demo_row 2 ''HetznerUS'' ''vm2'' Available 0 d2) = 3500"
  "uptime_mod_hour 10700000 (demo_row 3 ''HetznerUS'' ''vm3'' Available 100000 d3) = 3400"
  "uptime_frac 10700000 (demo_row 1 ''HetznerUS'' ''vm1'' Available 5600000 d1) = Some 1500"
  "uptime_frac 10700000 (demo_row 2 ''HetznerUS'' ''vm2'' Available 0 d2) = Some 3500"
  "uptime_frac 10700000 (demo_row 3 ''HetznerUS'' ''vm3'' Available 100000 d3) = Some 3400"
  by (simp_all add: uptime_mod_hour_def uptime_frac_def demo_row_fields pg_cast_int_def
        Let_def shrink_eval pg_mod_def)

text \<open>
  C3, as stated, fails.  With \<open>minSize = 1\<close>, a high watermark of 0 and an uptime floor
  of 3000 seconds, the rows with ids 2 and 3 of \<open>shrink_table\<close> are old enough and the
  row with id 1 is not.  The tick deletes the row with id 3, where the selection of the
  claim (skip one available row, then take the first that is old enough) names the row
  with id 2.  On the first two rows alone the tick deletes nothing, where the selection
  of the claim again names the row with id 2.
\<close>

theorem shrink_choice_counterexample:
  "vbrowser (snd (resizeVMGroupDecr (demo_env offline ''production'' 10700000) plain_config
               (demo_manager 0 1) (demo_world shrink_table))) =
     [demo_row 1 ''HetznerUS'' ''vm1'' Available 5600000 (Some (demo_vm ''vm1'')),
      demo_row 2 ''HetznerUS'' ''vm2'' Available 0 (Some (demo_vm ''vm2''))]
   \<and> shrink_choice_as_specified plain_config (demo_manager 0 1) 10700000 shrink_table = Some 2
   \<and> vbrowser (snd (resizeVMGroupDecr (demo_env offline ''production'' 10700000) plain_config
               (demo_manager 0 1) (demo_world (take 2 shrink_table)))) = take 2 shrink_table
   \<and> shrink_choice_as_specified plain_config (demo_manager 0 1) 10700000 (take 2 shrink_table)
       = Some 2"
proof -
  let ?e = "demo_env offline ''production'' 10700000"
  let ?m = "demo_manager 0 1"
  have env: "toNumber ?e = demo_toNumber" "now ?e = 10700000" "terminateVM ?e v" for v
    by (simp_all add: demo_env_def)
  have mgr: "getPoolName (demo_manager l k) = ''HetznerUS''" "minSize (demo_manager l k) = k"
      "limitSize (demo_manager l k) = l" for l k
    by (simp_all add: getPoolName_def demo_manager_def)
  have cfg: "VM_MIN_UPTIME_MINUTES plain_config = 50" by (simp add: plain_config_def)
  have code3: "vbrowser (snd (resizeVMGroupDecr ?e plain_config ?m (demo_world shrink_table))) =
     [demo_row 1 ''HetznerUS'' ''vm1'' Available 5600000 (Some (demo_vm ''vm1'')),
      demo_row 2 ''HetznerUS'' ''vm2'' Available 0 (Some (demo_vm ''vm2''))]"
    by (simp add: resizeVMGroupDecr_def Let_def env mgr cfg getAdjustedBuffer_plain
          shrink_eval getAvailableCount_def in_pool_def first_by_id_def eligible_def
          shrink_table_def shrink_table_eval terminateVMWrapper_def say_fields call_fields
          demo_world_fields demo_row_fields)
  have code2: "vbrowser (snd (resizeVMGroupDecr ?e plain_config ?m (demo_world (take 2 shrink_table))))
                 = take 2 shrink_table"
    by (simp add: resizeVMGroupDecr_def Let_def env mgr cfg getAdjustedBuffer_plain
          shrink_eval getAvailableCount_def in_pool_def first_by_id_def eligible_def
          shrink_table_def shrink_table_eval terminateVMWrapper_def say_fields call_fields
          demo_world_fields demo_row_fields)
  have spec3: "shrink_choice_as_specified plain_config ?m 10700000 shrink_table = Some 2"
    by (simp add: shrink_choice_as_specified_def mgr cfg in_pool_def shrink_table_def
          shrink_table_eval demo_row_fields)
  have spec2: "shrink_choice_as_specified plain_config ?m 10700000 (take 2 shrink_table) = Some 2"
    by (simp add: shrink_choice_as_specified_def mgr cfg in_pool_def shrink_table_def
          shrink_table_eval demo_row_fields)
  from code3 spec3 code2 spec2 show ?thesis by blast
qed

text \<open>On \<open>shrink_table\<close> with \<open>minSize = 1\<close> the rows old enough are those with ids 2 and
  3, both in their third hour; the first of them is kept and the row with id 3 is
  deleted, which leaves two available rows.\<close>

theorem shrink_deletes_oldest_eligible_witness:
  "distinct (map rid (vbrowser (demo_world shrink_table)))
   \<and> distinct (map (\<lambda>r. (pool r, vmid r)) (vbrowser (demo_world shrink_table)))
   \<and> list_all
       (\<lambda>r. pg_cast_int
              (of_int (now (demo_env offline ''production'' 10700000) - creationTime r) / 1000)
            \<noteq> None)
       (vbrowser (demo_world shrink_table))
   \<and> vbrowser (snd (resizeVMGroupDecr (demo_env offline ''production'' 10700000) plain_config
               (demo_manager 0 1) (demo_world shrink_table))) =
       [demo_row 1 ''HetznerUS'' ''vm1'' Available 5600000 (Some (demo_vm ''vm1'')),
        demo_row 2 ''HetznerUS'' ''vm2'' Available 0 (Some (demo_vm ''vm2''))]
   \<and> getAvailableCount (demo_manager 0 1)
        (vbrowser (snd (resizeVMGroupDecr (demo_env offline ''production'' 10700000) plain_config
               (demo_manager 0 1) (demo_world shrink_table)))) = 2"
proof -
  let ?e = "demo_env offline ''production'' 10700000"
  let ?m = "demo_manager 0 1"
  let ?w = "demo_world shrink_table"
  have env: "toNumber ?e = demo_toNumber" "now ?e = 10700000"
    by (simp_all add: demo_env_def)
  have h1: "distinct (map rid (vbrowser ?w))"
    by (simp add: demo_world_fields shrink_table_def demo_row_fields)
  have h2: "distinct (map (\<lambda>r. (pool r, vmid r)) (vbrowser ?w))"
    by (simp add: demo_world_fields shrink_table_def demo_row_fields)
  have h3: "\<forall>r \<in> set (vbrowser ?w). pg_cast_int (of_int (now ?e - creationTime r) / 1000) \<noteq> None"
    by (simp add: env demo_world_fields shrink_table_def demo_row_fields pg_cast_int_def
          Let_def shrink_eval)
  have mgr: "getPoolName (demo_manager l k) = ''HetznerUS''" "minSize (demo_manager l k) = k"
      "limitSize (demo_manager l k) = l" for l k
    by (simp_all add: getPoolName_def demo_manager_def)
  have cfg: "VM_MIN_UPTIME_MINUTES plain_config = 50" by (simp add: plain_config_def)
  have differ: "demo_row 3 ''HetznerUS'' ''vm3'' Available 100000 (Some (demo_vm ''vm3''))
                  \<noteq> demo_row 1 ''HetznerUS'' ''vm1'' Available 5600000 (Some (demo_vm ''vm1''))"
      "demo_row 3 ''HetznerUS'' ''vm3'' Available 100000 (Some (demo_vm ''vm3''))
                  \<noteq> demo_row 2 ''HetznerUS'' ''vm2'' Available 0 (Some (demo_vm ''vm2''))"
    by (simp_all add: demo_row_def fresh_row_def)
  from shrink_deletes_oldest_eligible [OF h1 h2 h3, of plain_config ?m]
  have table: "vbrowser (snd (resizeVMGroupDecr ?e plain_config ?m ?w)) =
       [demo_row 1 ''HetznerUS'' ''vm1'' Available 5600000 (Some (demo_vm ''vm1'')),
        demo_row 2 ''HetznerUS'' ''vm2'' Available 0 (Some (demo_vm ''vm2''))]"
    by (simp add: env mgr cfg demo_row_fields differ getAdjustedBuffer_plain shrink_eval
          getAvailableCount_def in_pool_def shrink_table_eval demo_world_fields
          shrink_table_def)
  have count: "getAvailableCount ?m (vbrowser (snd (resizeVMGroupDecr ?e plain_config ?m ?w))) = 2"
    unfolding table by (simp add: getAvailableCount_def in_pool_def mgr demo_row_fields)
  from h3 have h3': "list_all (\<lambda>r. pg_cast_int (of_int (now ?e - creationTime r) / 1000) \<noteq> None)
                       (vbrowser ?w)"
    unfolding list_all_iff .
  from h1 h2 h3' table count show ?thesis by blast
qed

text \<open>On \<open>ancient_table\<close> the cast raises on the first row: the tick is rejected and
  deletes nothing, although the second row is old enough.\<close>

lemma shrink_out_of_range_example:
  "resizeVMGroupDecr (demo_env offline ''production'' 2900000) plain_config (demo_manager 0 0)
     (demo_world ancient_table)
   = (IntegerOutOfRange, say [CountAvailable, DeleteOldestEligible] (demo_world ancient_table))"
proof (rule resizeVMGroupDecr_raises)
  let ?e = "demo_env offline ''production'' 2900000"
  let ?r = "demo_row 1 ''HetznerUS'' ''vm1'' Available (- 2200000000000) (Some (demo_vm ''vm1''))"
  have env: "toNumber ?e = demo_toNumber" "now ?e = 2900000" by (simp_all add: demo_env_def)
  show "int (getAvailableCount (demo_manager 0 0) (vbrowser (demo_world ancient_table)))
          > snd (getAdjustedBuffer (toNumber ?e) plain_config (demo_manager 0 0) (getUTCHours (now ?e)))"
    by (simp add: env getAdjustedBuffer_plain getAvailableCount_def in_pool_def demo_world_fields
          ancient_table_def demo_row_fields getPoolName_def demo_manager_def)
  show "?r \<in> set (vbrowser (demo_world ancient_table))"
    by (simp add: demo_world_fields ancient_table_def)
  show "pool ?r = getPoolName (demo_manager 0 0)"
    by (simp add: demo_row_fields getPoolName_def demo_manager_def)
  show "state ?r = Available" by (simp add: demo_row_fields)
  show "pg_cast_int (of_int (now ?e - creationTime ?r) / 1000) = None"
    by (simp add: env demo_row_fields pg_cast_int_def pg_round_def)
qed

end
